theory Spec2Isabelle
  imports Main "HOL-Library.AList"
begin

section \<open>Data model (types.ts)\<close>

text \<open>
  The catalog entities, restricted to the fields that the dependency graph engine
  (deps.ts) and the integrity checker (commands/lint.ts) read. Optional fields
  (\<^verbatim>\<open>owner?: string\<close>, \<^verbatim>\<open>dependsOn?: Dependency[]\<close>) are options; \<open>None\<close> is
  \<^verbatim>\<open>undefined\<close>. Field names carry a prefix per interface, since several interfaces
  share \<^verbatim>\<open>id\<close>, \<^verbatim>\<open>name\<close> and \<^verbatim>\<open>owner\<close>. Strings are lists of characters; their
  order, used for the dedup key only, is that of the code units.
\<close>

record Dependency =
  dep_service :: string
  dep_api :: "string option"
  dep_description :: "string option"

record Service =
  svc_id :: string
  svc_name :: string
  svc_system :: "string option"
  svc_owner :: "string option"
  svc_dependsOn :: "Dependency list option"

record System =
  sys_id :: string
  sys_name :: string
  sys_owner :: "string option"

record Owner =
  own_id :: string
  own_name :: string

text \<open>\<^verbatim>\<open>s.dependsOn ?? []\<close> and \<^verbatim>\<open>s?.dependsOn ?? []\<close>.\<close>

definition dependsOnOrEmpty :: "Service \<Rightarrow> Dependency list" where
  "dependsOnOrEmpty s = (case svc_dependsOn s of None \<Rightarrow> [] | Some ds \<Rightarrow> ds)"

definition dependsOnOfLookup :: "Service option \<Rightarrow> Dependency list" where
  "dependsOnOfLookup r = (case r of None \<Rightarrow> [] | Some s \<Rightarrow> dependsOnOrEmpty s)"

text \<open>
  A JavaScript \<^verbatim>\<open>Map\<close> is an association list in insertion order: \<^verbatim>\<open>get\<close> is
  \<^const>\<open>map_of\<close>, \<^verbatim>\<open>set\<close> is \<^const>\<open>AList.update\<close> (an existing key keeps its place
  and takes the new value). \<^verbatim>\<open>new Map(entries)\<close> sets the entries one after the
  other, so the last entry of a repeated key wins. A \<^verbatim>\<open>Set<string>\<close> of which only
  membership is observed is a HOL set.
\<close>

definition newMap :: "('k \<times> 'v) list \<Rightarrow> ('k \<times> 'v) list" where
  "newMap entries = foldl (\<lambda>m (k, v). AList.update k v m) [] entries"

text \<open>\<^verbatim>\<open>new Map(services.map((s) => [s.id, s]))\<close>, as resolveDeps and findCircularDeps build it.\<close>

definition serviceMapOf :: "Service list \<Rightarrow> (string \<times> Service) list" where
  "serviceMapOf services = newMap (map (\<lambda>s. (svc_id s, s)) services)"

text \<open>
  The depth limit is a JavaScript \<^verbatim>\<open>number\<close>. The command line hands over the result
  of \<^verbatim>\<open>parseInt\<close>, an integer or \<^verbatim>\<open>NaN\<close>; the infinities are kept as well. \<open>geq d m\<close>
  is the comparison \<^verbatim>\<open>d >= maxDepth\<close> for the recursion depth \<open>d\<close>, a natural number.
\<close>

datatype number = Integer int | PosInfinity | NegInfinity | NaN

fun geq :: "nat \<Rightarrow> number \<Rightarrow> bool" where
  "geq d (Integer m) = (m \<le> int d)"
| "geq d PosInfinity = False"
| "geq d NegInfinity = True"
| "geq d NaN = False"

section \<open>Dependency graph engine (deps.ts)\<close>

datatype DepNode =
  DepNode (node_id: string) (node_name: string) (node_api: "string option")
    (node_description: "string option") (children: "DepNode list")

record ServiceRef =
  ref_id :: string
  ref_name :: string

record DepsResult =
  res_service :: ServiceRef
  res_dependents :: "DepNode list"
  res_dependencies :: "DepNode list"

record ReverseEntry =
  re_service :: Service
  re_api :: "string option"
  re_description :: "string option"

datatype direction = Up | Down

subsection \<open>buildReverseIndex\<close>

text \<open>The body of the inner loop: get the list (or a new one), push the entry, set it.\<close>

definition addDependent ::
  "(string \<times> ReverseEntry list) list \<Rightarrow> Service \<Rightarrow> Dependency \<Rightarrow> (string \<times> ReverseEntry list) list"
where
  "addDependent reverse s dep =
     AList.update (dep_service dep)
       ((case map_of reverse (dep_service dep) of None \<Rightarrow> [] | Some list \<Rightarrow> list)
          @ [\<lparr>re_service = s, re_api = dep_api dep, re_description = dep_description dep\<rparr>])
       reverse"

definition buildReverseIndex :: "Service list \<Rightarrow> (string \<times> ReverseEntry list) list" where
  "buildReverseIndex services =
     foldl (\<lambda>reverse s. foldl (\<lambda>reverse dep. addDependent reverse s dep) reverse (dependsOnOrEmpty s))
       [] services"

subsection \<open>walkDown\<close>

text \<open>
  \<open>walkDown serviceId serviceMap maxDepth v d\<close> takes the visited set \<open>v\<close> and the depth
  \<open>d\<close> that the source passes as optional arguments (\<open>{}\<close> and \<open>0\<close> when omitted) and
  returns the forest together with the visited set as the call leaves it, because the
  source mutates one shared set. \<open>walkDown_map\<close> is the \<^verbatim>\<open>.map\<close> over the dependency
  list: its callback runs left to right, each recursive call seeing the set its
  predecessors left.
\<close>

function walkDown ::
    "string \<Rightarrow> (string \<times> Service) list \<Rightarrow> number \<Rightarrow> string set \<Rightarrow> nat \<Rightarrow> DepNode list \<times> string set"
  and walkDown_map ::
    "Dependency list \<Rightarrow> (string \<times> Service) list \<Rightarrow> number \<Rightarrow> string set \<Rightarrow> nat \<Rightarrow> DepNode list \<times> string set"
where
  "walkDown serviceId serviceMap maxDepth v d =
     (if geq d maxDepth \<or> serviceId \<in> v then ([], v)
      else (case map_of serviceMap serviceId of
              None \<Rightarrow> ([], insert serviceId v)
            | Some service \<Rightarrow>
                walkDown_map (dependsOnOrEmpty service) serviceMap maxDepth (insert serviceId v) d))"
| "walkDown_map [] serviceMap maxDepth v d = ([], v)"
| "walkDown_map (dep # deps) serviceMap maxDepth v d =
     (case walkDown (dep_service dep) serviceMap maxDepth v (d + 1) of
        (kids, v1) \<Rightarrow>
          (case walkDown_map deps serviceMap maxDepth v1 d of
             (rest, v2) \<Rightarrow>
               (DepNode (dep_service dep)
                  (case map_of serviceMap (dep_service dep) of
                     None \<Rightarrow> dep_service dep
                   | Some target \<Rightarrow> svc_name target)
                  (dep_api dep) (dep_description dep) kids # rest, v2)))"
  by pat_completeness auto

text \<open>
  The recursion is nested through the visited set: the set a later sibling starts from
  is the result of the earlier call. Termination does not use the depth limit (it may be
  \<open>NaN\<close>): every call that recurses marks a key of the map that was unmarked, and the
  set never shrinks.
\<close>

lemma walkDown_visited_mono:
  "walkDown_walkDown_map_dom (Inl (sid, m, md, v, d)) \<Longrightarrow> v \<subseteq> snd (walkDown sid m md v d)"
  "walkDown_walkDown_map_dom (Inr (ds, m, md, v, d)) \<Longrightarrow> v \<subseteq> snd (walkDown_map ds m md v d)"
proof (induct rule: walkDown_walkDown_map.pinduct)
  case (1 serviceId serviceMap maxDepth v d)
  then show ?case
    by (auto simp: walkDown.psimps split: option.splits)
next
  case (2 serviceMap maxDepth v d)
  then show ?case by (simp add: walkDown_map.psimps)
next
  case (3 dep deps serviceMap maxDepth v d)
  obtain kids v1 where w: "walkDown (dep_service dep) serviceMap maxDepth v (d + 1) = (kids, v1)"
    by (cases "walkDown (dep_service dep) serviceMap maxDepth v (d + 1)")
  obtain rest v2 where r: "walkDown_map deps serviceMap maxDepth v1 d = (rest, v2)"
    by (cases "walkDown_map deps serviceMap maxDepth v1 d")
  from 3(2) w have "v \<subseteq> v1" by simp
  moreover from 3(3)[of kids v1] w r have "v1 \<subseteq> v2" by simp
  ultimately show ?case using 3(1) w r by (simp add: walkDown_map.psimps)
qed

lemma card_unmarked_insert:
  assumes "map_of m k = Some s" and "k \<notin> v"
  shows "card (fst ` set m - insert k v) < card (fst ` set m - v)"
proof -
  from assms(1) have "k \<in> fst ` set m"
    by (metis map_of_eq_None_iff option.distinct(1))
  with assms(2) have "fst ` set m - insert k v \<subset> fst ` set m - v" by auto
  then show ?thesis by (simp add: psubset_card_mono)
qed

lemma card_unmarked_mono:
  "v \<subseteq> v' \<Longrightarrow> card (fst ` set m - v') \<le> card (fst ` set m - v)"
  by (rule card_mono) auto

lemma walkDown_total: "All walkDown_walkDown_map_dom"
proof (relation "inv_image (less_than <*lex*> less_than) (\<lambda>x. case x of
      Inl (sid, m, md, v, d) \<Rightarrow> (card (fst ` set m - v), 0)
    | Inr (ds, m, md, v, d) \<Rightarrow> (card (fst ` set m - v), Suc (length ds)))", goal_cases)
  case 1
  show ?case by (intro wf_inv_image wf_lex_prod wf_less_than)
next
  case (2 serviceId serviceMap maxDepth v d x2)
  then show ?case by (simp add: card_unmarked_insert)
next
  case (3 dep deps serviceMap maxDepth v d)
  show ?case by simp
next
  case (4 dep deps serviceMap maxDepth v d x y)
  from 4(2) have "v \<subseteq> snd (walkDown (dep_service dep) serviceMap maxDepth v (d + 1))"
    by (rule walkDown_visited_mono(1))
  with 4(1) have "v \<subseteq> y" by (metis snd_conv)
  then have "card (fst ` set serviceMap - y) \<le> card (fst ` set serviceMap - v)"
    by (rule card_unmarked_mono)
  then show ?case by auto
qed

termination walkDown
  by (rule walkDown_total)

declare walkDown.simps [simp del]

subsection \<open>walkUp\<close>

text \<open>
  The same traversal over the reverse index. \<^verbatim>\<open>reverseIndex.get(serviceId) ?? []\<close> is
  an empty list for a missing key, so the visited set takes the id either way.
\<close>

function walkUp ::
    "string \<Rightarrow> (string \<times> ReverseEntry list) list \<Rightarrow> number \<Rightarrow> string set \<Rightarrow> nat
      \<Rightarrow> DepNode list \<times> string set"
  and walkUp_map ::
    "ReverseEntry list \<Rightarrow> (string \<times> ReverseEntry list) list \<Rightarrow> number \<Rightarrow> string set \<Rightarrow> nat
      \<Rightarrow> DepNode list \<times> string set"
where
  "walkUp serviceId reverseIndex maxDepth v d =
     (if geq d maxDepth \<or> serviceId \<in> v then ([], v)
      else walkUp_map
             (case map_of reverseIndex serviceId of None \<Rightarrow> [] | Some dependents \<Rightarrow> dependents)
             reverseIndex maxDepth (insert serviceId v) d)"
| "walkUp_map [] reverseIndex maxDepth v d = ([], v)"
| "walkUp_map (dep # deps) reverseIndex maxDepth v d =
     (case walkUp (svc_id (re_service dep)) reverseIndex maxDepth v (d + 1) of
        (kids, v1) \<Rightarrow>
          (case walkUp_map deps reverseIndex maxDepth v1 d of
             (rest, v2) \<Rightarrow>
               (DepNode (svc_id (re_service dep)) (svc_name (re_service dep))
                  (re_api dep) (re_description dep) kids # rest, v2)))"
  by pat_completeness auto

lemma walkUp_visited_mono:
  "walkUp_walkUp_map_dom (Inl (sid, r, md, v, d)) \<Longrightarrow> v \<subseteq> snd (walkUp sid r md v d)"
  "walkUp_walkUp_map_dom (Inr (es, r, md, v, d)) \<Longrightarrow> v \<subseteq> snd (walkUp_map es r md v d)"
proof (induct rule: walkUp_walkUp_map.pinduct)
  case (1 serviceId reverseIndex maxDepth v d)
  then show ?case
    by (auto simp: walkUp.psimps)
next
  case (2 reverseIndex maxDepth v d)
  then show ?case by (simp add: walkUp_map.psimps)
next
  case (3 dep deps reverseIndex maxDepth v d)
  obtain kids v1 where w: "walkUp (svc_id (re_service dep)) reverseIndex maxDepth v (d + 1) = (kids, v1)"
    by (cases "walkUp (svc_id (re_service dep)) reverseIndex maxDepth v (d + 1)")
  obtain rest v2 where r: "walkUp_map deps reverseIndex maxDepth v1 d = (rest, v2)"
    by (cases "walkUp_map deps reverseIndex maxDepth v1 d")
  from 3(2) w have "v \<subseteq> v1" by simp
  moreover from 3(3)[of kids v1] w r have "v1 \<subseteq> v2" by simp
  ultimately show ?case using 3(1) w r by (simp add: walkUp_map.psimps)
qed

lemma walkUp_total: "All walkUp_walkUp_map_dom"
proof (relation "inv_image (less_than <*lex*> less_than) (\<lambda>x. case x of
      Inl (sid, r, md, v, d) \<Rightarrow> (card (fst ` set r - v), 1)
    | Inr (es, r, md, v, d) \<Rightarrow> (card (fst ` set r - v), 2 * length es))", goal_cases)
  case 1
  show ?case by (intro wf_inv_image wf_lex_prod wf_less_than)
next
  case (2 serviceId reverseIndex maxDepth v d)
  show ?case
  proof (cases "map_of reverseIndex serviceId")
    case None
    have "card (fst ` set reverseIndex - insert serviceId v) \<le> card (fst ` set reverseIndex - v)"
      by (rule card_unmarked_mono) auto
    with None show ?thesis by auto
  next
    case (Some dependents)
    with 2 show ?thesis by (simp add: card_unmarked_insert)
  qed
next
  case (3 dep deps reverseIndex maxDepth v d)
  show ?case by simp
next
  case (4 dep deps reverseIndex maxDepth v d x y)
  from 4(2) have "v \<subseteq> snd (walkUp (svc_id (re_service dep)) reverseIndex maxDepth v (d + 1))"
    by (rule walkUp_visited_mono(1))
  with 4(1) have "v \<subseteq> y" by (metis snd_conv)
  then have "card (fst ` set reverseIndex - y) \<le> card (fst ` set reverseIndex - v)"
    by (rule card_unmarked_mono)
  then show ?case by auto
qed

termination walkUp
  by (rule walkUp_total)

declare walkUp.simps [simp del]

subsection \<open>findOrphans and resolveDeps\<close>

definition findOrphans :: "Service list \<Rightarrow> Service list" where
  "findOrphans services =
     (let reverseIndex = buildReverseIndex services in
      filter (\<lambda>s.
        let hasDepsDown = length (dependsOnOrEmpty s) > 0;
            hasDepsUp = length (case map_of reverseIndex (svc_id s) of None \<Rightarrow> [] | Some l \<Rightarrow> l) > 0
        in \<not> hasDepsDown \<and> \<not> hasDepsUp) services)"

definition resolveDeps :: "string \<Rightarrow> Service list \<Rightarrow> number \<Rightarrow> direction option \<Rightarrow> DepsResult" where
  "resolveDeps serviceId services maxDepth direction =
     (let serviceMap = serviceMapOf services;
          reverseIndex = buildReverseIndex services;
          service = map_of serviceMap serviceId
      in \<lparr>res_service =
            \<lparr>ref_id = serviceId,
             ref_name = (case service of None \<Rightarrow> serviceId | Some s \<Rightarrow> svc_name s)\<rparr>,
          res_dependents =
            (if direction = Some Down then [] else fst (walkUp serviceId reverseIndex maxDepth {} 0)),
          res_dependencies =
            (if direction = Some Up then [] else fst (walkDown serviceId serviceMap maxDepth {} 0))\<rparr>)"

section \<open>Catalog integrity checker (commands/lint.ts)\<close>

datatype Severity = Error | Warning

record LintResult =
  lr_type :: string
  lr_severity :: Severity
  lr_entity :: string
  lr_entityKind :: string
  lr_message :: string
  lr_fix :: "string option"

text \<open>
  Strings of the source: the double quote of the messages, the decimal text of a count
  in a template literal (\<open>digitChar\<close> is applied to numbers below 10 only), and
  the order \<^verbatim>\<open><\<close> that \<^verbatim>\<open>Array.prototype.sort\<close> uses on strings (by code unit, a
  proper prefix first).
\<close>

definition dquote :: string where
  "dquote = [CHR 0x22]"

definition digitChar :: "nat \<Rightarrow> char" where
  "digitChar n = ''0123456789'' ! n"

fun showNat :: "nat \<Rightarrow> string" where
  "showNat n = (if n < 10 then [digitChar n] else showNat (n div 10) @ [digitChar (n mod 10)])"

declare showNat.simps [simp del]

fun strLess :: "string \<Rightarrow> string \<Rightarrow> bool" where
  "strLess [] [] = False"
| "strLess [] (y # ys) = True"
| "strLess (x # xs) [] = False"
| "strLess (x # xs) (y # ys) =
     ((of_char x :: nat) < of_char y \<or> (x = y \<and> strLess xs ys))"

text \<open>
  A reference is followed when it is truthy: \<^verbatim>\<open>undefined\<close> and the empty string are
  not.
\<close>

definition truthy :: "string option \<Rightarrow> bool" where
  "truthy r = (case r of None \<Rightarrow> False | Some x \<Rightarrow> x \<noteq> [])"

subsection \<open>Reference checks\<close>

definition findOrphanedSystemRefs :: "Service list \<Rightarrow> string set \<Rightarrow> LintResult list" where
  "findOrphanedSystemRefs services systemIds =
     concat (map (\<lambda>s.
       (case svc_system s of
          None \<Rightarrow> []
        | Some sysRef \<Rightarrow>
            if sysRef \<noteq> [] \<and> sysRef \<notin> systemIds then
              [\<lparr>lr_type = ''orphaned_system_ref'', lr_severity = Error, lr_entity = svc_name s,
                lr_entityKind = ''service'',
                lr_message = ''References system '' @ dquote @ sysRef @ dquote @ '' which does not exist'',
                lr_fix = Some (''yp service rm '' @ svc_name s @ ''  OR  yp system add --name <name>'')\<rparr>]
            else [])) services)"

definition ownerRefFinding :: "string \<Rightarrow> string \<Rightarrow> string \<Rightarrow> LintResult" where
  "ownerRefFinding entity kind ownerRef =
     \<lparr>lr_type = ''orphaned_owner_ref'', lr_severity = Error, lr_entity = entity,
      lr_entityKind = kind,
      lr_message = ''References owner '' @ dquote @ ownerRef @ dquote @ '' which does not exist'',
      lr_fix = None\<rparr>"

definition findOrphanedOwnerRefs :: "Service list \<Rightarrow> System list \<Rightarrow> string set \<Rightarrow> LintResult list" where
  "findOrphanedOwnerRefs services systems ownerIds =
     concat (map (\<lambda>s.
       (case svc_owner s of
          None \<Rightarrow> []
        | Some ownerRef \<Rightarrow>
            if ownerRef \<noteq> [] \<and> ownerRef \<notin> ownerIds
            then [ownerRefFinding (svc_name s) ''service'' ownerRef] else [])) services)
     @ concat (map (\<lambda>sys.
       (case sys_owner sys of
          None \<Rightarrow> []
        | Some ownerRef \<Rightarrow>
            if ownerRef \<noteq> [] \<and> ownerRef \<notin> ownerIds
            then [ownerRefFinding (sys_name sys) ''system'' ownerRef] else [])) systems)"

definition missingOwnerFinding :: "Service \<Rightarrow> LintResult" where
  "missingOwnerFinding s =
     \<lparr>lr_type = ''missing_owner'', lr_severity = Warning, lr_entity = svc_name s,
      lr_entityKind = ''service'', lr_message = ''Has no owner assigned'',
      lr_fix = Some (''yp service add --name '' @ svc_name s @ '' --owner <owner>'')\<rparr>"

definition findMissingOwners :: "Service list \<Rightarrow> LintResult list" where
  "findMissingOwners services =
     map missingOwnerFinding (filter (\<lambda>s. \<not> truthy (svc_owner s)) services)"

definition findDanglingDeps :: "Service list \<Rightarrow> string set \<Rightarrow> LintResult list" where
  "findDanglingDeps services serviceIds =
     concat (map (\<lambda>s.
       concat (map (\<lambda>dep.
         if dep_service dep \<notin> serviceIds then
           [\<lparr>lr_type = ''dangling_dependency'', lr_severity = Error, lr_entity = svc_name s,
             lr_entityKind = ''service'',
             lr_message = ''Depends on '' @ dquote @ dep_service dep @ dquote @ '' which does not exist'',
             lr_fix = None\<rparr>]
         else []) (dependsOnOrEmpty s))) services)"

subsection \<open>findCircularDeps\<close>

text \<open>
  The sets and the list that the nested function \<^verbatim>\<open>walk\<close> mutates: \<^verbatim>\<open>ancestors\<close> (made
  anew for each origin), \<^verbatim>\<open>reported\<close> and \<^verbatim>\<open>results\<close>.
\<close>

record scan =
  ancestors :: "string set"
  reported :: "string set"
  results :: "LintResult list"

text \<open>\<^verbatim>\<open>[service.id, id].sort().join(":")\<close>: the two ids swap when the second is smaller.\<close>

definition cycleKey :: "string \<Rightarrow> string \<Rightarrow> string" where
  "cycleKey originId i =
     (if strLess i originId then i @ '':'' @ originId else originId @ '':'' @ i)"

text \<open>The arrow of the message, U+2194, in UTF-8.\<close>

definition arrow :: string where
  "arrow = [CHR 0xE2, CHR 0x86, CHR 0x94]"

definition circularFinding :: "(string \<times> Service) list \<Rightarrow> Service \<Rightarrow> string \<Rightarrow> LintResult" where
  "circularFinding serviceMap service i =
     \<lparr>lr_type = ''circular_dependency'', lr_severity = Error, lr_entity = svc_name service,
      lr_entityKind = ''service'',
      lr_message = ''Circular dependency detected: '' @ svc_name service
         @ '' '' @ arrow @ '' ''
         @ (case map_of serviceMap i of None \<Rightarrow> i | Some target \<Rightarrow> svc_name target),
      lr_fix = None\<rparr>"

function walk :: "(string \<times> Service) list \<Rightarrow> Service \<Rightarrow> string \<Rightarrow> scan \<Rightarrow> scan"
  and walk_deps :: "(string \<times> Service) list \<Rightarrow> Service \<Rightarrow> Dependency list \<Rightarrow> scan \<Rightarrow> scan"
where
  "walk serviceMap service i st =
     (if i \<in> ancestors st then
        (let key = cycleKey (svc_id service) i in
         if key \<notin> reported st
         then st\<lparr>reported := insert key (reported st),
                 results := results st @ [circularFinding serviceMap service i]\<rparr>
         else st)
      else
        (let st1 = st\<lparr>ancestors := insert i (ancestors st)\<rparr>;
             st2 = walk_deps serviceMap service (dependsOnOfLookup (map_of serviceMap i)) st1
         in st2\<lparr>ancestors := ancestors st2 - {i}\<rparr>))"
| "walk_deps serviceMap service [] st = st"
| "walk_deps serviceMap service (dep # deps) st =
     walk_deps serviceMap service deps (walk serviceMap service (dep_service dep) st)"
  by pat_completeness auto

text \<open>
  \<^verbatim>\<open>walk\<close> adds the id to the ancestors on entry and deletes it on exit, so a call
  leaves the ancestors as it found them; the nested recursion terminates because the
  path of ancestors grows along the keys of the map.
\<close>

lemma walk_ancestors_restored:
  "walk_walk_deps_dom (Inl (m, svc, i, st)) \<Longrightarrow> ancestors (walk m svc i st) = ancestors st"
  "walk_walk_deps_dom (Inr (m, svc, ds, st)) \<Longrightarrow> ancestors (walk_deps m svc ds st) = ancestors st"
proof (induct rule: walk_walk_deps.pinduct)
  case (1 serviceMap service i st)
  show ?case
  proof (cases "i \<in> ancestors st")
    case True
    with 1(1) show ?thesis by (simp add: walk.psimps Let_def)
  next
    case False
    from 1(2)[OF False refl]
    have "ancestors (walk_deps serviceMap service (dependsOnOfLookup (map_of serviceMap i))
            (st\<lparr>ancestors := insert i (ancestors st)\<rparr>)) = insert i (ancestors st)"
      by simp
    with False 1(1) show ?thesis by (simp add: walk.psimps Let_def)
  qed
next
  case (2 serviceMap service st)
  then show ?case by (simp add: walk_deps.psimps)
next
  case (3 serviceMap service dep deps st)
  then show ?case by (simp add: walk_deps.psimps)
qed

lemma dependsOnOfLookup_None [simp]: "dependsOnOfLookup None = []"
  by (simp add: dependsOnOfLookup_def)

lemma walk_total: "All walk_walk_deps_dom"
proof (relation "inv_image (less_than <*lex*> less_than) (\<lambda>x. case x of
      Inl (m, svc, i, st) \<Rightarrow> (card (fst ` set m - ancestors st), 1)
    | Inr (m, svc, ds, st) \<Rightarrow> (card (fst ` set m - ancestors st), 2 * length ds))", goal_cases)
  case 1
  show ?case by (intro wf_inv_image wf_lex_prod wf_less_than)
next
  case (2 serviceMap service i st x)
  show ?case
  proof (cases "map_of serviceMap i")
    case None
    have "card (fst ` set serviceMap - insert i (ancestors st)) \<le> card (fst ` set serviceMap - ancestors st)"
      by (rule card_unmarked_mono) auto
    with None 2 show ?thesis by auto
  next
    case (Some s)
    with 2 show ?thesis by (simp add: card_unmarked_insert)
  qed
next
  case (3 serviceMap service dep deps st)
  show ?case by simp
next
  case (4 serviceMap service dep deps st)
  then show ?case by (simp add: walk_ancestors_restored(1))
qed

termination walk
  by (rule walk_total)

declare walk.simps [simp del]

text \<open>
  The loop over the origins. Each turn starts from a new ancestor set holding the
  origin's id and walks the dependencies of the record the map holds for that id.
\<close>

definition scanOrigin :: "(string \<times> Service) list \<Rightarrow> scan \<Rightarrow> Service \<Rightarrow> scan" where
  "scanOrigin serviceMap st service =
     walk_deps serviceMap service (dependsOnOfLookup (map_of serviceMap (svc_id service)))
       (st\<lparr>ancestors := {svc_id service}\<rparr>)"

definition findCircularDeps :: "Service list \<Rightarrow> LintResult list" where
  "findCircularDeps services =
     (let serviceMap = serviceMapOf services
      in results (foldl (scanOrigin serviceMap)
                    \<lparr>ancestors = {}, reported = {}, results = []\<rparr> services))"

subsection \<open>findDuplicateNames, findEmptySystems, runLintChecks\<close>

text \<open>
  \<^verbatim>\<open>check\<close> reads only the names of its items. \<open>countNames\<close> is its first loop (the
  map \<^verbatim>\<open>seen\<close>), the second loop walks that map in insertion order.
  \<^verbatim>\<open>String.prototype.toLowerCase\<close> is a built-in of the language, with the case mapping
  of Unicode: it is not part of the repository and is taken as the parameter
  \<open>toLowerCase\<close>, about which nothing is assumed.
\<close>

definition countNames :: "(string \<Rightarrow> string) \<Rightarrow> string list \<Rightarrow> (string \<times> nat) list" where
  "countNames toLowerCase names =
     foldl (\<lambda>seen name.
        let lower = toLowerCase name
        in AList.update lower ((case map_of seen lower of None \<Rightarrow> 0 | Some c \<Rightarrow> c) + 1) seen)
       [] names"

definition duplicateFinding :: "string \<Rightarrow> string \<Rightarrow> nat \<Rightarrow> LintResult" where
  "duplicateFinding kind name count =
     \<lparr>lr_type = ''duplicate_name'', lr_severity = Error, lr_entity = name, lr_entityKind = kind,
      lr_message = showNat count @ '' '' @ kind @ ''s share the name '' @ dquote @ name @ dquote,
      lr_fix = None\<rparr>"

definition check :: "(string \<Rightarrow> string) \<Rightarrow> string list \<Rightarrow> string \<Rightarrow> LintResult list" where
  "check toLowerCase names kind =
     concat (map (\<lambda>(name, count). if count > 1 then [duplicateFinding kind name count] else [])
       (countNames toLowerCase names))"

definition findDuplicateNames ::
  "(string \<Rightarrow> string) \<Rightarrow> Service list \<Rightarrow> System list \<Rightarrow> Owner list \<Rightarrow> LintResult list" where
  "findDuplicateNames toLowerCase services systems owners =
     check toLowerCase (map svc_name services) ''service''
     @ check toLowerCase (map sys_name systems) ''system''
     @ check toLowerCase (map own_name owners) ''owner''"

definition findEmptySystems :: "System list \<Rightarrow> Service list \<Rightarrow> LintResult list" where
  "findEmptySystems systems services =
     map (\<lambda>sys.
        \<lparr>lr_type = ''empty_system'', lr_severity = Warning, lr_entity = sys_name sys,
         lr_entityKind = ''system'', lr_message = ''System has no services'', lr_fix = None\<rparr>)
       (filter (\<lambda>sys. \<not> (\<exists>s \<in> set services. svc_system s = Some (sys_id sys))) systems)"

definition runLintChecks ::
  "(string \<Rightarrow> string) \<Rightarrow> Service list \<Rightarrow> System list \<Rightarrow> Owner list \<Rightarrow> LintResult list" where
  "runLintChecks toLowerCase services systems owners =
     (let serviceIds = set (map svc_id services);
          systemIds = set (map sys_id systems);
          ownerIds = set (map own_id owners)
      in findOrphanedSystemRefs services systemIds
         @ findOrphanedOwnerRefs services systems ownerIds
         @ findMissingOwners services
         @ findDanglingDeps services serviceIds
         @ findCircularDeps services
         @ findDuplicateNames toLowerCase services systems owners
         @ findEmptySystems systems services)"

section \<open>Notions used to state the properties\<close>

text \<open>
  What the reverse index must hold for a key, read off the catalog: one entry for each
  edge into the key, in catalog order. \<open>extend\<close> is what one more batch of entries does
  to the value under a key.
\<close>

definition edgeEntry :: "Service \<Rightarrow> Dependency \<Rightarrow> ReverseEntry" where
  "edgeEntry s dep = \<lparr>re_service = s, re_api = dep_api dep, re_description = dep_description dep\<rparr>"

definition dependentsOf :: "string \<Rightarrow> Service list \<Rightarrow> ReverseEntry list" where
  "dependentsOf k services =
     concat (map (\<lambda>s. map (edgeEntry s) (filter (\<lambda>dep. dep_service dep = k) (dependsOnOrEmpty s))) services)"

definition extend :: "'a list option \<Rightarrow> 'a list \<Rightarrow> 'a list option" where
  "extend old new = (if new = [] then old else Some ((case old of None \<Rightarrow> [] | Some l \<Rightarrow> l) @ new))"

text \<open>
  The nodes at recursion depth \<open>k\<close> of a forest: depth 0 is the queried service, which
  is no node of the forest; depth 1 is the returned list; one level further down are
  the children.
\<close>

fun nodesAtDepth :: "nat \<Rightarrow> DepNode list \<Rightarrow> DepNode list" where
  "nodesAtDepth 0 forest = []"
| "nodesAtDepth (Suc 0) forest = forest"
| "nodesAtDepth (Suc (Suc k)) forest = nodesAtDepth (Suc k) (concat (map children forest))"

text \<open>
  The size of a forest, and the potential that bounds it: the edges that leave the keys
  of the map not yet visited. Each call that expands a service pays for the nodes it
  makes with that service's edges, whatever the depth limit is.
\<close>

fun nodeCount :: "DepNode \<Rightarrow> nat" where
  "nodeCount (DepNode i n a ds kids) = Suc (sum_list (map nodeCount kids))"

definition forestSize :: "DepNode list \<Rightarrow> nat" where
  "forestSize forest = sum_list (map nodeCount forest)"

definition edgesFrom :: "('k \<times> 'v) list \<Rightarrow> ('v \<Rightarrow> nat) \<Rightarrow> 'k \<Rightarrow> nat" where
  "edgesFrom m w k = (case map_of m k of None \<Rightarrow> 0 | Some x \<Rightarrow> w x)"

definition unmarkedEdges :: "('k \<times> 'v) list \<Rightarrow> ('v \<Rightarrow> nat) \<Rightarrow> 'k set \<Rightarrow> nat" where
  "unmarkedEdges m w v = (\<Sum>k \<in> fst ` set m - v. edgesFrom m w k)"

text \<open>The ids of the nodes of a forest, parents before children.\<close>

fun nodeIds :: "DepNode \<Rightarrow> string list" where
  "nodeIds (DepNode i n a ds kids) = i # concat (map nodeIds kids)"

definition forestIds :: "DepNode list \<Rightarrow> string list" where
  "forestIds forest = concat (map nodeIds forest)"

text \<open>How many of the names are equal to \<open>n\<close> once lowered.\<close>

definition sharing :: "(string \<Rightarrow> string) \<Rightarrow> string list \<Rightarrow> string \<Rightarrow> nat" where
  "sharing toLowerCase names n = length (filter (\<lambda>x. toLowerCase x = n) names)"

text \<open>
  \<open>grows\<close> relates the state before and after a walk for one origin: the ancestors are
  as before, and the findings and the keys that were added are those of one list of
  detection points, with keys that were new and differ from each other. \<open>aligned\<close> is what
  this adds up to over the origins seen so far. \<open>scanAll\<close> is the state after the loop.
\<close>

definition grows :: "(string \<times> Service) list \<Rightarrow> Service \<Rightarrow> scan \<Rightarrow> scan \<Rightarrow> bool" where
  "grows m svc st st' \<longleftrightarrow>
     ancestors st' = ancestors st
     \<and> (\<exists>js. results st' = results st @ map (circularFinding m svc) js
            \<and> reported st' = reported st \<union> set (map (cycleKey (svc_id svc)) js)
            \<and> distinct (map (cycleKey (svc_id svc)) js)
            \<and> set (map (cycleKey (svc_id svc)) js) \<inter> reported st = {})"

definition aligned :: "(string \<times> Service) list \<Rightarrow> Service list \<Rightarrow> scan \<Rightarrow> bool" where
  "aligned m seen st \<longleftrightarrow>
     (\<exists>pairs. results st = map (\<lambda>(s, j). circularFinding m s j) pairs
        \<and> reported st = set (map (\<lambda>(s, j). cycleKey (svc_id s) j) pairs)
        \<and> distinct (map (\<lambda>(s, j). cycleKey (svc_id s) j) pairs)
        \<and> fst ` set pairs \<subseteq> set seen)"

definition scanAll :: "Service list \<Rightarrow> scan" where
  "scanAll services =
     foldl (scanOrigin (serviceMapOf services)) \<lparr>ancestors = {}, reported = {}, results = []\<rparr> services"

section \<open>Example catalogs\<close>

text \<open>The records that the examples below are made of, as the tests' \<^verbatim>\<open>makeService\<close> does.\<close>

definition dependsOn :: "string \<Rightarrow> Dependency" where
  "dependsOn target = \<lparr>dep_service = target, dep_api = None, dep_description = None\<rparr>"

definition makeService :: "string \<Rightarrow> string \<Rightarrow> Dependency list \<Rightarrow> Service" where
  "makeService i n deps =
     \<lparr>svc_id = i, svc_name = n, svc_system = None, svc_owner = None, svc_dependsOn = Some deps\<rparr>"

text \<open>
  A lowering function for the examples: it lowers the ASCII letters and keeps every other
  character, as the built-in does on ASCII names.
\<close>

definition asciiLowerChar :: "char \<Rightarrow> char" where
  "asciiLowerChar c =
     (case map_of (zip ''ABCDEFGHIJKLMNOPQRSTUVWXYZ'' ''abcdefghijklmnopqrstuvwxyz'') c of
        None \<Rightarrow> c
      | Some l \<Rightarrow> l)"

definition asciiLowerCase :: "string \<Rightarrow> string" where
  "asciiLowerCase s = map asciiLowerChar s"

text \<open>The catalog of the unit tests of deps.ts, without the api and description texts.\<close>

definition testServices :: "Service list" where
  "testServices =
     [makeService ''gw'' ''gateway'' [dependsOn ''auth'', dependsOn ''payments''],
      makeService ''auth'' ''auth'' [],
      makeService ''payments'' ''payments'' [dependsOn ''stripe'', dependsOn ''auth''],
      makeService ''stripe'' ''stripe-webhook'' [],
      makeService ''notifications'' ''notifications'' []]"

definition cyclicServices :: "Service list" where
  "cyclicServices =
     [makeService ''a'' ''a'' [dependsOn ''b''], makeService ''b'' ''b'' [dependsOn ''a'']]"

text \<open>A diamond: \<open>a\<close> depends on \<open>b\<close> and \<open>c\<close>, both depend on \<open>d\<close>; and one where \<open>d\<close> depends on \<open>e\<close>.\<close>

definition diamondServices :: "Service list" where
  "diamondServices =
     [makeService ''a'' ''A'' [dependsOn ''b'', dependsOn ''c''],
      makeService ''b'' ''B'' [dependsOn ''d''],
      makeService ''c'' ''C'' [dependsOn ''d''],
      makeService ''d'' ''D'' []]"

definition diamondTailServices :: "Service list" where
  "diamondTailServices =
     [makeService ''a'' ''A'' [dependsOn ''b'', dependsOn ''c''],
      makeService ''b'' ''B'' [dependsOn ''d''],
      makeService ''c'' ''C'' [dependsOn ''d''],
      makeService ''d'' ''D'' [dependsOn ''e''],
      makeService ''e'' ''E'' []]"

text \<open>
  The two-service cycle of the unit tests of lint.ts, and a catalog whose ids contain the
  separator of the dedup key.
\<close>

definition twoCycle :: "Service list" where
  "twoCycle =
     [makeService ''s1'' ''svc-a'' [dependsOn ''s2''], makeService ''s2'' ''svc-b'' [dependsOn ''s1'']]"

definition colonServices :: "Service list" where
  "colonServices =
     [makeService ''a:a:a'' ''n1'' [dependsOn ''a''],
      makeService ''a'' ''n2'' [dependsOn ''a''],
      makeService ''a:a'' ''n3'' [dependsOn ''a:a'']]"

section \<open>The reverse index and the orphans\<close>

lemma extend_Nil [simp]: "extend old [] = old"
  by (simp add: extend_def)

lemma extend_extend: "extend (extend old xs) ys = extend old (xs @ ys)"
  by (auto simp: extend_def split: option.splits)

lemma map_of_addDependent:
  "map_of (addDependent r s dep) k =
     extend (map_of r k) (if dep_service dep = k then [edgeEntry s dep] else [])"
  by (simp add: addDependent_def update_conv' extend_def edgeEntry_def)

lemma map_of_inner_loop:
  "map_of (foldl (\<lambda>reverse dep. addDependent reverse s dep) r ds) k =
     extend (map_of r k) (map (edgeEntry s) (filter (\<lambda>dep. dep_service dep = k) ds))"
proof (induction ds arbitrary: r)
  case Nil
  show ?case by simp
next
  case (Cons dep ds)
  show ?case
    by (simp add: Cons.IH map_of_addDependent extend_extend)
qed

lemma map_of_outer_loop:
  "map_of (foldl (\<lambda>reverse s. foldl (\<lambda>reverse dep. addDependent reverse s dep) reverse (dependsOnOrEmpty s)) r services) k =
     extend (map_of r k) (dependentsOf k services)"
proof (induction services arbitrary: r)
  case Nil
  show ?case by (simp add: dependentsOf_def)
next
  case (Cons s services)
  show ?case
    by (simp add: Cons.IH map_of_inner_loop extend_extend dependentsOf_def)
qed

lemma map_of_buildReverseIndex:
  "map_of (buildReverseIndex services) k =
     (if dependentsOf k services = [] then None else Some (dependentsOf k services))"
  by (simp add: buildReverseIndex_def map_of_outer_loop extend_def)

lemma dependentsOf_Nil_iff:
  "dependentsOf k services = [] \<longleftrightarrow>
     (\<forall>s \<in> set services. \<forall>dep \<in> set (dependsOnOrEmpty s). dep_service dep \<noteq> k)"
  by (auto simp: dependentsOf_def filter_empty_conv)

lemma edgeEntry_in_dependentsOf:
  "s \<in> set services \<Longrightarrow> dep \<in> set (dependsOnOrEmpty s) \<Longrightarrow>
     edgeEntry s dep \<in> set (dependentsOf (dep_service dep) services)"
  by (auto simp: dependentsOf_def)

text \<open>
  C6. For every service \<open>s\<close> of the catalog and every dependency \<open>dep\<close> of \<open>s\<close>, the reverse
  index has a list under \<open>dep\<close>'s target that contains the entry for \<open>s\<close> with \<open>dep\<close>'s
  api and description unchanged; and a key that no dependency targets is absent from the
  index (the lookup is \<open>None\<close>, not an empty list).
\<close>

theorem buildReverseIndex_correct:
  "(\<forall>s \<in> set services. \<forall>dep \<in> set (dependsOnOrEmpty s).
      \<exists>list. map_of (buildReverseIndex services) (dep_service dep) = Some list
        \<and> \<lparr>re_service = s, re_api = dep_api dep, re_description = dep_description dep\<rparr> \<in> set list)
   \<and> (\<forall>k. (\<forall>s \<in> set services. \<forall>dep \<in> set (dependsOnOrEmpty s). dep_service dep \<noteq> k)
          \<longrightarrow> map_of (buildReverseIndex services) k = None)"
proof (intro conjI ballI allI impI)
  fix s dep
  assume s: "s \<in> set services" and d: "dep \<in> set (dependsOnOrEmpty s)"
  from edgeEntry_in_dependentsOf[OF s d]
  have mem: "edgeEntry s dep \<in> set (dependentsOf (dep_service dep) services)" .
  then have "dependentsOf (dep_service dep) services \<noteq> []" by auto
  then have "map_of (buildReverseIndex services) (dep_service dep)
      = Some (dependentsOf (dep_service dep) services)"
    by (simp add: map_of_buildReverseIndex)
  with mem show "\<exists>list. map_of (buildReverseIndex services) (dep_service dep) = Some list
        \<and> \<lparr>re_service = s, re_api = dep_api dep, re_description = dep_description dep\<rparr> \<in> set list"
    by (auto simp: edgeEntry_def)
next
  fix k
  assume "\<forall>s \<in> set services. \<forall>dep \<in> set (dependsOnOrEmpty s). dep_service dep \<noteq> k"
  then have "dependentsOf k services = []" by (simp add: dependentsOf_Nil_iff)
  then show "map_of (buildReverseIndex services) k = None"
    by (simp add: map_of_buildReverseIndex)
qed

theorem buildReverseIndex_correct_witness:
  "map_of (buildReverseIndex
      [makeService ''gw'' ''gateway'' [\<lparr>dep_service = ''auth'', dep_api = Some ''OAuth'', dep_description = None\<rparr>],
       makeService ''auth'' ''auth'' []]) ''auth''
     = Some [\<lparr>re_service = makeService ''gw'' ''gateway''
                 [\<lparr>dep_service = ''auth'', dep_api = Some ''OAuth'', dep_description = None\<rparr>],
              re_api = Some ''OAuth'', re_description = None\<rparr>]
   \<and> map_of (buildReverseIndex
      [makeService ''gw'' ''gateway'' [\<lparr>dep_service = ''auth'', dep_api = Some ''OAuth'', dep_description = None\<rparr>],
       makeService ''auth'' ''auth'' []]) ''gw'' = None"
  using buildReverseIndex_correct
    [of "[makeService ''gw'' ''gateway'' [\<lparr>dep_service = ''auth'', dep_api = Some ''OAuth'', dep_description = None\<rparr>],
          makeService ''auth'' ''auth'' []]"]
  by (simp add: buildReverseIndex_def addDependent_def dependsOnOrEmpty_def makeService_def)

text \<open>
  C7. findOrphans returns exactly the services, in catalog order, that have no dependency
  of their own and whose id no service's dependency targets. Since such a service has no
  dependency itself, it makes no difference whether "no service" or "no other service"
  is read.
\<close>

theorem findOrphans_exact:
  "findOrphans services =
     filter (\<lambda>s. dependsOnOrEmpty s = []
        \<and> (\<forall>t \<in> set services. \<forall>dep \<in> set (dependsOnOrEmpty t). dep_service dep \<noteq> svc_id s)) services
   \<and> findOrphans services =
     filter (\<lambda>s. dependsOnOrEmpty s = []
        \<and> (\<forall>t \<in> set services. t \<noteq> s \<longrightarrow>
              (\<forall>dep \<in> set (dependsOnOrEmpty t). dep_service dep \<noteq> svc_id s))) services"
proof
  show first: "findOrphans services =
     filter (\<lambda>s. dependsOnOrEmpty s = []
        \<and> (\<forall>t \<in> set services. \<forall>dep \<in> set (dependsOnOrEmpty t). dep_service dep \<noteq> svc_id s)) services"
    unfolding findOrphans_def Let_def
    by (rule filter_cong[OF refl])
       (auto simp: map_of_buildReverseIndex dependentsOf_Nil_iff)
  show "findOrphans services =
     filter (\<lambda>s. dependsOnOrEmpty s = []
        \<and> (\<forall>t \<in> set services. t \<noteq> s \<longrightarrow>
              (\<forall>dep \<in> set (dependsOnOrEmpty t). dep_service dep \<noteq> svc_id s))) services"
    unfolding first
    by (rule filter_cong[OF refl]) auto
qed

theorem findOrphans_exact_witness:
  "findOrphans [makeService ''a'' ''A'' [dependsOn ''b''], makeService ''b'' ''B'' [],
                makeService ''c'' ''C'' []]
     = [makeService ''c'' ''C'' []]"
  using findOrphans_exact
    [of "[makeService ''a'' ''A'' [dependsOn ''b''], makeService ''b'' ''B'' [], makeService ''c'' ''C'' []]"]
  by (simp add: dependsOnOrEmpty_def makeService_def dependsOn_def)

section \<open>Lookups in the service map, and the width of a level\<close>

lemma map_of_newMap_loop:
  "map_of (foldl (\<lambda>m (k, v). AList.update k v m) acc es) k =
     (case map_of (rev es) k of None \<Rightarrow> map_of acc k | Some v \<Rightarrow> Some v)"
proof (induction es arbitrary: acc)
  case Nil
  show ?case by simp
next
  case (Cons e es)
  obtain k' v' where e: "e = (k', v')" by (cases e)
  show ?case
    by (simp add: Cons.IH e update_conv' map_add_def split: option.splits)
qed

lemma map_of_newMap: "map_of (newMap es) = map_of (rev es)"
  by (rule ext) (simp add: newMap_def map_of_newMap_loop split: option.splits)

lemma map_of_serviceMapOf_None:
  "map_of (serviceMapOf services) k = None \<longleftrightarrow> k \<notin> svc_id ` set services"
  by (simp add: serviceMapOf_def map_of_newMap map_of_eq_None_iff image_image)

lemma map_of_serviceMapOf_distinct:
  assumes "distinct (map svc_id services)" and "s \<in> set services"
  shows "map_of (serviceMapOf services) (svc_id s) = Some s"
proof -
  have "distinct (map fst (rev (map (\<lambda>s. (svc_id s, s)) services)))"
    using assms(1) by (simp add: rev_map[symmetric] comp_def distinct_rev del: rev_map)
  moreover have "(svc_id s, s) \<in> set (rev (map (\<lambda>s. (svc_id s, s)) services))"
    using assms(2) by auto
  ultimately show ?thesis
    unfolding serviceMapOf_def map_of_newMap by (rule map_of_is_SomeI)
qed

lemma map_of_serviceMapOf_Some:
  "map_of (serviceMapOf services) k = Some s \<Longrightarrow> s \<in> set services \<and> svc_id s = k"
  by (auto simp: serviceMapOf_def map_of_newMap dest!: map_of_SomeD)

lemma length_walkDown_map: "length (fst (walkDown_map ds m md v d)) = length ds"
proof (induction ds arbitrary: v)
  case Nil
  show ?case by simp
next
  case (Cons dep ds)
  obtain kids v1 where w: "walkDown (dep_service dep) m md v (d + 1) = (kids, v1)"
    by (cases "walkDown (dep_service dep) m md v (d + 1)")
  obtain rest v2 where r: "walkDown_map ds m md v1 d = (rest, v2)"
    by (cases "walkDown_map ds m md v1 d")
  from Cons.IH[of v1] r have "length rest = length ds" by simp
  with w r show ?case by simp
qed

lemma length_walkUp_map: "length (fst (walkUp_map es r md v d)) = length es"
proof (induction es arbitrary: v)
  case Nil
  show ?case by simp
next
  case (Cons e es)
  obtain kids v1 where w: "walkUp (svc_id (re_service e)) r md v (d + 1) = (kids, v1)"
    by (cases "walkUp (svc_id (re_service e)) r md v (d + 1)")
  obtain rest v2 where r: "walkUp_map es r md v1 d = (rest, v2)"
    by (cases "walkUp_map es r md v1 d")
  from Cons.IH[of v1] r have "length rest = length es" by simp
  with w r show ?case by simp
qed

section \<open>resolveDeps on an unknown id\<close>

text \<open>
  C2, as the claim states it, fails: an id that no service carries can still be the
  target of a dependency (a dangling reference), and then the reverse index has a key
  for it and walkUp lists the services that reference it. In the catalog of one service
  \<open>a\<close> that depends on \<open>ghost\<close>, resolveDeps on \<open>ghost\<close> returns \<open>a\<close> as a dependent.
\<close>

theorem resolveDeps_unknown_id_counterexample:
  "''ghost'' \<notin> svc_id ` set [makeService ''a'' ''A'' [dependsOn ''ghost'']]
   \<and> resolveDeps ''ghost'' [makeService ''a'' ''A'' [dependsOn ''ghost'']] (Integer 10) None
       = \<lparr>res_service = \<lparr>ref_id = ''ghost'', ref_name = ''ghost''\<rparr>,
          res_dependents = [DepNode ''a'' ''A'' None None []], res_dependencies = []\<rparr>
   \<and> res_dependents
        (resolveDeps ''ghost'' [makeService ''a'' ''A'' [dependsOn ''ghost'']] (Integer 10) None)
       \<noteq> []"
  by (simp add: walkUp.simps walkDown.simps resolveDeps_def serviceMapOf_def newMap_def buildReverseIndex_def addDependent_def
      makeService_def dependsOn_def dependsOnOrEmpty_def)

lemma labels_walkUp_map:
  "map (\<lambda>n. (node_id n, node_name n, node_api n, node_description n)) (fst (walkUp_map es r md v d))
     = map (\<lambda>e. (svc_id (re_service e), svc_name (re_service e), re_api e, re_description e)) es"
proof (induction es arbitrary: v)
  case Nil
  show ?case by simp
next
  case (Cons e es)
  obtain kids v1 where w: "walkUp (svc_id (re_service e)) r md v (d + 1) = (kids, v1)"
    by (cases "walkUp (svc_id (re_service e)) r md v (d + 1)")
  obtain rest v2 where r: "walkUp_map es r md v1 d = (rest, v2)"
    by (cases "walkUp_map es r md v1 d")
  from Cons.IH[of v1] r
  have "map (\<lambda>n. (node_id n, node_name n, node_api n, node_description n)) rest
     = map (\<lambda>e. (svc_id (re_service e), svc_name (re_service e), re_api e, re_description e)) es"
    by simp
  with w r show ?case by simp
qed

lemma labels_dependentsOf:
  "map (\<lambda>e. (svc_id (re_service e), svc_name (re_service e), re_api e, re_description e))
       (dependentsOf k services)
     = concat (map (\<lambda>s. map (\<lambda>dep. (svc_id s, svc_name s, dep_api dep, dep_description dep))
                 (filter (\<lambda>dep. dep_service dep = k) (dependsOnOrEmpty s))) services)"
  by (simp add: dependentsOf_def edgeEntry_def map_concat comp_def)

text \<open>
  C2, amended. For an id that no service carries, resolveDeps returns the id echoed as the
  name and no dependencies, and raises nothing. The dependents are empty when the
  direction is \<open>down\<close> or the depth limit is already reached at depth 0. Otherwise their
  top-level nodes are, in catalog order, one for each dependency of the catalog that
  targets the id, with the id and name of the service that declares the dependency and
  the dependency's api and description. So the dependents are empty exactly when the
  direction is \<open>down\<close>, or the limit is reached at depth 0, or no dependency targets the
  id.
\<close>

theorem resolveDeps_unknown_id:
  assumes "serviceId \<notin> svc_id ` set services"
  shows "res_service (resolveDeps serviceId services maxDepth direction)
           = \<lparr>ref_id = serviceId, ref_name = serviceId\<rparr>
       \<and> res_dependencies (resolveDeps serviceId services maxDepth direction) = []
       \<and> (direction = Some Down \<or> geq 0 maxDepth \<longrightarrow>
            res_dependents (resolveDeps serviceId services maxDepth direction) = [])
       \<and> (direction \<noteq> Some Down \<and> \<not> geq 0 maxDepth \<longrightarrow>
            map (\<lambda>n. (node_id n, node_name n, node_api n, node_description n))
              (res_dependents (resolveDeps serviceId services maxDepth direction))
            = concat (map (\<lambda>s. map (\<lambda>dep. (svc_id s, svc_name s, dep_api dep, dep_description dep))
                 (filter (\<lambda>dep. dep_service dep = serviceId) (dependsOnOrEmpty s))) services))
       \<and> (res_dependents (resolveDeps serviceId services maxDepth direction) = [] \<longleftrightarrow>
            direction = Some Down \<or> geq 0 maxDepth
            \<or> (\<forall>s \<in> set services. \<forall>dep \<in> set (dependsOnOrEmpty s). dep_service dep \<noteq> serviceId))"
proof -
  from assms have none: "map_of (serviceMapOf services) serviceId = None"
    by (simp add: map_of_serviceMapOf_None)
  let ?up = "fst (walkUp serviceId (buildReverseIndex services) maxDepth {} 0)"
  have stop: "geq 0 maxDepth \<Longrightarrow> ?up = []"
    by (simp add: walkUp.simps)
  have go: "\<not> geq 0 maxDepth \<Longrightarrow>
      map (\<lambda>n. (node_id n, node_name n, node_api n, node_description n)) ?up
      = map (\<lambda>e. (svc_id (re_service e), svc_name (re_service e), re_api e, re_description e))
          (dependentsOf serviceId services)"
    by (simp add: walkUp.simps map_of_buildReverseIndex labels_walkUp_map)
  have up: "?up = [] \<longleftrightarrow> geq 0 maxDepth \<or> dependentsOf serviceId services = []"
  proof (cases "geq 0 maxDepth")
    case True
    with stop show ?thesis by simp
  next
    case False
    from arg_cong[OF go[OF False], of length]
    have "length ?up = length (dependentsOf serviceId services)"
      by (simp only: length_map)
    then have "?up = [] \<longleftrightarrow> dependentsOf serviceId services = []"
      by (simp only: length_0_conv[symmetric])
    with False show ?thesis by simp
  qed
  have deps: "res_dependents (resolveDeps serviceId services maxDepth direction)
      = (if direction = Some Down then [] else ?up)"
    by (simp add: resolveDeps_def Let_def)
  have a: "res_service (resolveDeps serviceId services maxDepth direction)
           = \<lparr>ref_id = serviceId, ref_name = serviceId\<rparr>"
    using none by (simp add: resolveDeps_def Let_def)
  have b: "res_dependencies (resolveDeps serviceId services maxDepth direction) = []"
    using none by (simp add: resolveDeps_def Let_def walkDown.simps)
  have c: "direction = Some Down \<or> geq 0 maxDepth \<longrightarrow>
            res_dependents (resolveDeps serviceId services maxDepth direction) = []"
    unfolding deps using stop by auto
  have d: "direction \<noteq> Some Down \<and> \<not> geq 0 maxDepth \<longrightarrow>
            map (\<lambda>n. (node_id n, node_name n, node_api n, node_description n))
              (res_dependents (resolveDeps serviceId services maxDepth direction))
            = concat (map (\<lambda>s. map (\<lambda>dep. (svc_id s, svc_name s, dep_api dep, dep_description dep))
                 (filter (\<lambda>dep. dep_service dep = serviceId) (dependsOnOrEmpty s))) services)"
    using go unfolding deps labels_dependentsOf by simp
  have e: "res_dependents (resolveDeps serviceId services maxDepth direction) = [] \<longleftrightarrow>
            direction = Some Down \<or> geq 0 maxDepth
            \<or> (\<forall>s \<in> set services. \<forall>dep \<in> set (dependsOnOrEmpty s). dep_service dep \<noteq> serviceId)"
    unfolding deps using up by (simp add: dependentsOf_Nil_iff)
  from a b c d e show ?thesis by blast
qed

theorem resolveDeps_unknown_id_witness:
  "resolveDeps ''ghost''
      [makeService ''a'' ''A'' [\<lparr>dep_service = ''ghost'', dep_api = Some ''v1'', dep_description = None\<rparr>],
       makeService ''b'' ''B'' [dependsOn ''a'', dependsOn ''ghost'']]
      (Integer 10) None
    = \<lparr>res_service = \<lparr>ref_id = ''ghost'', ref_name = ''ghost''\<rparr>,
       res_dependents =
         [DepNode ''a'' ''A'' (Some ''v1'') None [DepNode ''b'' ''B'' None None []],
          DepNode ''b'' ''B'' None None []],
       res_dependencies = []\<rparr>"
proof -
  have unknown: "''ghost'' \<notin> svc_id ` set
      [makeService ''a'' ''A'' [\<lparr>dep_service = ''ghost'', dep_api = Some ''v1'', dep_description = None\<rparr>],
       makeService ''b'' ''B'' [dependsOn ''a'', dependsOn ''ghost'']]"
    by (simp add: makeService_def)
  have run: "res_dependents (resolveDeps ''ghost''
      [makeService ''a'' ''A'' [\<lparr>dep_service = ''ghost'', dep_api = Some ''v1'', dep_description = None\<rparr>],
       makeService ''b'' ''B'' [dependsOn ''a'', dependsOn ''ghost'']]
      (Integer 10) None)
    = [DepNode ''a'' ''A'' (Some ''v1'') None [DepNode ''b'' ''B'' None None []],
       DepNode ''b'' ''B'' None None []]"
    by (simp add: walkUp.simps resolveDeps_def Let_def buildReverseIndex_def addDependent_def
        makeService_def dependsOn_def dependsOnOrEmpty_def)
  from resolveDeps_unknown_id [OF unknown, of "Integer 10" None]
  have "res_service (resolveDeps ''ghost''
      [makeService ''a'' ''A'' [\<lparr>dep_service = ''ghost'', dep_api = Some ''v1'', dep_description = None\<rparr>],
       makeService ''b'' ''B'' [dependsOn ''a'', dependsOn ''ghost'']]
      (Integer 10) None) = \<lparr>ref_id = ''ghost'', ref_name = ''ghost''\<rparr>"
    and "res_dependencies (resolveDeps ''ghost''
      [makeService ''a'' ''A'' [\<lparr>dep_service = ''ghost'', dep_api = Some ''v1'', dep_description = None\<rparr>],
       makeService ''b'' ''B'' [dependsOn ''a'', dependsOn ''ghost'']]
      (Integer 10) None) = []"
    by blast+
  with run show ?thesis
    by (cases "resolveDeps ''ghost''
      [makeService ''a'' ''A'' [\<lparr>dep_service = ''ghost'', dep_api = Some ''v1'', dep_description = None\<rparr>],
       makeService ''b'' ''B'' [dependsOn ''a'', dependsOn ''ghost'']]
      (Integer 10) None") simp
qed


section \<open>The depth bound of walkDown\<close>

lemma nodesAtDepth_Nil [simp]: "nodesAtDepth k [] = []"
  by (induction k "[] :: DepNode list" rule: nodesAtDepth.induct) auto

lemma nodesAtDepth_append:
  "nodesAtDepth k (xs @ ys) = nodesAtDepth k xs @ nodesAtDepth k ys"
  by (induction k xs arbitrary: ys rule: nodesAtDepth.induct) auto

lemma nodesAtDepth_Cons:
  "nodesAtDepth (Suc (Suc k)) (n # forest) =
     nodesAtDepth (Suc k) (children n) @ nodesAtDepth (Suc (Suc k)) forest"
  by (simp add: nodesAtDepth_append)

lemma children_one_level_down:
  "n \<in> set (nodesAtDepth (Suc k) forest) \<Longrightarrow>
     set (children n) \<subseteq> set (nodesAtDepth (Suc (Suc k)) forest)"
proof (induction k arbitrary: forest)
  case 0
  then show ?case by auto
next
  case (Suc k)
  from Suc.prems have "n \<in> set (nodesAtDepth (Suc k) (concat (map children forest)))" by simp
  from Suc.IH[OF this] show ?case by simp
qed

lemma geq_mono: "geq d md \<Longrightarrow> geq (d + k) md"
  by (cases md) auto

lemma walkDown_levels:
  "geq (d + k) md \<longrightarrow> nodesAtDepth (Suc k) (fst (walkDown sid m md v d)) = []"
  "geq (d + Suc k) md \<longrightarrow> nodesAtDepth (Suc (Suc k)) (fst (walkDown_map ds m md v d)) = []"
proof (induction sid m md v d and ds m md v d arbitrary: k and k rule: walkDown_walkDown_map.induct)
  case (1 serviceId serviceMap maxDepth v d)
  show ?case
  proof (cases "geq d maxDepth \<or> serviceId \<in> v")
    case True
    then show ?thesis by (simp add: walkDown.simps)
  next
    case False
    show ?thesis
    proof (cases "map_of serviceMap serviceId")
      case None
      with False show ?thesis by (simp add: walkDown.simps)
    next
      case (Some service)
      show ?thesis
      proof (cases k)
        case 0
        with False show ?thesis by simp
      next
        case (Suc k')
        from "1.IH"[OF False Some, of k'] Suc False Some show ?thesis
          by (simp add: walkDown.simps)
      qed
    qed
  qed
next
  case (2 serviceMap maxDepth v d)
  show ?case by simp
next
  case (3 dep deps serviceMap maxDepth v d)
  obtain kids v1 where w: "walkDown (dep_service dep) serviceMap maxDepth v (d + 1) = (kids, v1)"
    by (cases "walkDown (dep_service dep) serviceMap maxDepth v (d + 1)")
  obtain rest v2 where r: "walkDown_map deps serviceMap maxDepth v1 d = (rest, v2)"
    by (cases "walkDown_map deps serviceMap maxDepth v1 d")
  from "3.IH"(1)[of k] w
  have a: "geq (d + Suc k) maxDepth \<longrightarrow> nodesAtDepth (Suc k) kids = []" by simp
  from "3.IH"(2)[OF w[symmetric], of k] r
  have b: "geq (d + Suc k) maxDepth \<longrightarrow> nodesAtDepth (Suc (Suc k)) rest = []" by simp
  from a b w r show ?case by (simp add: nodesAtDepth_append)
qed

text \<open>
  C5. For every service map, root id and integer depth limit \<open>d\<close>, the forest that
  walkDown returns has no node at a depth greater than \<open>d\<close>, every node at depth \<open>d\<close>
  has no children, and a limit \<open>d \<le> 0\<close> (negative ones included) gives the empty
  forest.
\<close>

theorem walkDown_depth_bound:
  "(\<forall>k. d < int k \<longrightarrow> nodesAtDepth k (fst (walkDown serviceId serviceMap (Integer d) {} 0)) = [])
   \<and> (\<forall>n \<in> set (nodesAtDepth (nat d) (fst (walkDown serviceId serviceMap (Integer d) {} 0))).
         children n = [])
   \<and> (d \<le> 0 \<longrightarrow> fst (walkDown serviceId serviceMap (Integer d) {} 0) = [])"
proof (intro conjI allI impI ballI)
  fix k
  assume dk: "d < int k"
  show "nodesAtDepth k (fst (walkDown serviceId serviceMap (Integer d) {} 0)) = []"
  proof (cases k)
    case 0
    then show ?thesis by simp
  next
    case (Suc j)
    with dk have "geq (0 + j) (Integer d)" by simp
    with walkDown_levels(1)[of 0 j "Integer d" serviceId serviceMap "{}"] Suc
    show ?thesis by simp
  qed
next
  fix n
  assume n: "n \<in> set (nodesAtDepth (nat d) (fst (walkDown serviceId serviceMap (Integer d) {} 0)))"
  then obtain j where j: "nat d = Suc j" by (cases "nat d") auto
  then have "geq (0 + Suc j) (Integer d)" by simp
  with walkDown_levels(1)[of 0 "Suc j" "Integer d" serviceId serviceMap "{}"]
  have e: "nodesAtDepth (Suc (Suc j)) (fst (walkDown serviceId serviceMap (Integer d) {} 0)) = []"
    by blast
  from n j have "n \<in> set (nodesAtDepth (Suc j) (fst (walkDown serviceId serviceMap (Integer d) {} 0)))"
    by simp
  from children_one_level_down[OF this] have "set (children n) \<subseteq> {}"
    unfolding e by simp
  then show "children n = []" by simp
next
  assume "d \<le> 0"
  then show "fst (walkDown serviceId serviceMap (Integer d) {} 0) = []"
    by (simp add: walkDown.simps)
qed

theorem walkDown_depth_bound_witness:
  "fst (walkDown ''gw'' (serviceMapOf testServices) (Integer 1) {} 0)
     = [DepNode ''auth'' ''auth'' None None [], DepNode ''payments'' ''payments'' None None []]
   \<and> nodesAtDepth 2 (fst (walkDown ''gw'' (serviceMapOf testServices) (Integer 1) {} 0)) = []
   \<and> fst (walkDown ''gw'' (serviceMapOf testServices) (Integer (- 3)) {} 0) = []"
  using walkDown_depth_bound [of 1 "''gw''" "serviceMapOf testServices"]
    walkDown_depth_bound [of "- 3" "''gw''" "serviceMapOf testServices"]
  by (simp add: walkDown.simps serviceMapOf_def newMap_def testServices_def makeService_def
      dependsOn_def dependsOnOrEmpty_def numeral_2_eq_2)

section \<open>Termination of the walks\<close>

lemma forestSize_simps [simp]:
  "forestSize [] = 0"
  "forestSize (DepNode i n a ds kids # forest) = Suc (forestSize kids + forestSize forest)"
  by (simp_all add: forestSize_def)

lemma unmarkedEdges_mono: "v \<subseteq> v' \<Longrightarrow> unmarkedEdges m w v' \<le> unmarkedEdges m w v"
  unfolding unmarkedEdges_def by (rule sum_mono2) auto

lemma unmarkedEdges_insert:
  assumes "map_of m k = Some x" and "k \<notin> v"
  shows "unmarkedEdges m w v = w x + unmarkedEdges m w (insert k v)"
proof -
  from assms(1) have "k \<in> fst ` set m"
    by (metis map_of_eq_None_iff option.distinct(1))
  with assms(2) have split: "fst ` set m - v = insert k (fst ` set m - insert k v)" by auto
  have "unmarkedEdges m w v = sum (edgesFrom m w) (insert k (fst ` set m - insert k v))"
    unfolding unmarkedEdges_def by (rule arg_cong[OF split])
  also have "\<dots> = edgesFrom m w k + sum (edgesFrom m w) (fst ` set m - insert k v)"
    by (rule sum.insert) simp_all
  also have "edgesFrom m w k = w x"
    using assms(1) by (simp add: edgesFrom_def)
  finally show ?thesis by (simp only: unmarkedEdges_def)
qed

lemma unmarkedEdges_Cons:
  "unmarkedEdges ((k, x) # m) w {} \<le> w x + unmarkedEdges m w {}"
proof -
  have "unmarkedEdges ((k, x) # m) w {}
      = (\<Sum>j \<in> insert k (fst ` set m). edgesFrom ((k, x) # m) w j)"
    by (simp add: unmarkedEdges_def)
  also have "\<dots> = edgesFrom ((k, x) # m) w k
      + (\<Sum>j \<in> fst ` set m - {k}. edgesFrom ((k, x) # m) w j)"
    by (rule sum.insert_remove) simp
  also have "edgesFrom ((k, x) # m) w k = w x"
    by (simp add: edgesFrom_def)
  also have "(\<Sum>j \<in> fst ` set m - {k}. edgesFrom ((k, x) # m) w j)
      = (\<Sum>j \<in> fst ` set m - {k}. edgesFrom m w j)"
    by (rule sum.cong) (simp_all add: edgesFrom_def)
  also have "(\<Sum>j \<in> fst ` set m - {k}. edgesFrom m w j) \<le> (\<Sum>j \<in> fst ` set m. edgesFrom m w j)"
    by (rule sum_mono2) auto
  finally show ?thesis by (simp add: unmarkedEdges_def)
qed

lemma unmarkedEdges_le_total:
  "unmarkedEdges m w v \<le> sum_list (map (\<lambda>(k, x). w x) m)"
proof -
  have "unmarkedEdges m w {} \<le> sum_list (map (\<lambda>(k, x). w x) m)"
  proof (induction m)
    case Nil
    show ?case by (simp add: unmarkedEdges_def)
  next
    case (Cons e m)
    obtain k x where e: "e = (k, x)" by (cases e)
    from unmarkedEdges_Cons[of k x m w] Cons.IH show ?case
      unfolding e by simp
  qed
  moreover have "unmarkedEdges m w v \<le> unmarkedEdges m w {}"
    by (rule unmarkedEdges_mono) simp
  ultimately show ?thesis by (rule order_trans[rotated])
qed

lemma walkDown_size:
  "forestSize (fst (walkDown sid m md v d))
      + unmarkedEdges m (\<lambda>s. length (dependsOnOrEmpty s)) (snd (walkDown sid m md v d))
     \<le> unmarkedEdges m (\<lambda>s. length (dependsOnOrEmpty s)) v"
  "forestSize (fst (walkDown_map ds m md v d))
      + unmarkedEdges m (\<lambda>s. length (dependsOnOrEmpty s)) (snd (walkDown_map ds m md v d))
     \<le> length ds + unmarkedEdges m (\<lambda>s. length (dependsOnOrEmpty s)) v"
proof (induction sid m md v d and ds m md v d rule: walkDown_walkDown_map.induct)
  case (1 serviceId serviceMap maxDepth v d)
  show ?case
  proof (cases "geq d maxDepth \<or> serviceId \<in> v")
    case True
    then show ?thesis by (simp add: walkDown.simps)
  next
    case False
    show ?thesis
    proof (cases "map_of serviceMap serviceId")
      case None
      with False show ?thesis
        by (simp add: walkDown.simps unmarkedEdges_mono subset_insertI)
    next
      case (Some service)
      from False have "serviceId \<notin> v" by simp
      from unmarkedEdges_insert[OF Some this] "1.IH"[OF False Some] False Some
      show ?thesis by (simp add: walkDown.simps)
    qed
  qed
next
  case (2 serviceMap maxDepth v d)
  show ?case by simp
next
  case (3 dep deps serviceMap maxDepth v d)
  obtain kids v1 where w: "walkDown (dep_service dep) serviceMap maxDepth v (d + 1) = (kids, v1)"
    by (cases "walkDown (dep_service dep) serviceMap maxDepth v (d + 1)")
  obtain rest v2 where r: "walkDown_map deps serviceMap maxDepth v1 d = (rest, v2)"
    by (cases "walkDown_map deps serviceMap maxDepth v1 d")
  from "3.IH"(1) w "3.IH"(2)[OF w[symmetric]] r show ?case by simp
qed

lemma walkUp_size:
  "forestSize (fst (walkUp sid r md v d)) + unmarkedEdges r length (snd (walkUp sid r md v d))
     \<le> unmarkedEdges r length v"
  "forestSize (fst (walkUp_map es r md v d)) + unmarkedEdges r length (snd (walkUp_map es r md v d))
     \<le> length es + unmarkedEdges r length v"
proof (induction sid r md v d and es r md v d rule: walkUp_walkUp_map.induct)
  case (1 serviceId reverseIndex maxDepth v d)
  show ?case
  proof (cases "geq d maxDepth \<or> serviceId \<in> v")
    case True
    then show ?thesis by (simp add: walkUp.simps)
  next
    case False
    show ?thesis
    proof (cases "map_of reverseIndex serviceId")
      case None
      have "unmarkedEdges reverseIndex length (insert serviceId v) \<le> unmarkedEdges reverseIndex length v"
        by (rule unmarkedEdges_mono) auto
      with "1.IH"[OF False] None False show ?thesis
        by (simp add: walkUp.simps)
    next
      case (Some dependents)
      from False have "serviceId \<notin> v" by simp
      from unmarkedEdges_insert[OF Some this] "1.IH"[OF False] False Some
      show ?thesis by (simp add: walkUp.simps)
    qed
  qed
next
  case (2 reverseIndex maxDepth v d)
  show ?case by simp
next
  case (3 dep deps reverseIndex maxDepth v d)
  obtain kids v1 where w: "walkUp (svc_id (re_service dep)) reverseIndex maxDepth v (d + 1) = (kids, v1)"
    by (cases "walkUp (svc_id (re_service dep)) reverseIndex maxDepth v (d + 1)")
  obtain rest v2 where r: "walkUp_map deps reverseIndex maxDepth v1 d = (rest, v2)"
    by (cases "walkUp_map deps reverseIndex maxDepth v1 d")
  from "3.IH"(1) w "3.IH"(2)[OF w[symmetric]] r show ?case by simp
qed

text \<open>
  C4. For every service map and reverse index (cyclic or not, self-loops included), every
  depth limit (integers, the infinities and \<open>NaN\<close>), every visited set and depth, walkDown
  and walkUp terminate: every argument is in the domain of the recursion, whose
  termination proof uses the visited set only. The forest they return has at most as
  many nodes as the map has edges.
\<close>

theorem walks_terminate:
  "walkDown_walkDown_map_dom (Inl (serviceId, serviceMap, maxDepth, v, d))
   \<and> walkUp_walkUp_map_dom (Inl (serviceId, reverseIndex, maxDepth, v, d))
   \<and> forestSize (fst (walkDown serviceId serviceMap maxDepth v d))
        \<le> sum_list (map (\<lambda>(k, s). length (dependsOnOrEmpty s)) serviceMap)
   \<and> forestSize (fst (walkUp serviceId reverseIndex maxDepth v d))
        \<le> sum_list (map (\<lambda>(k, dependents). length dependents) reverseIndex)"
proof (intro conjI)
  show "walkDown_walkDown_map_dom (Inl (serviceId, serviceMap, maxDepth, v, d))"
    using walkDown_total by blast
  show "walkUp_walkUp_map_dom (Inl (serviceId, reverseIndex, maxDepth, v, d))"
    using walkUp_total by blast
  have "forestSize (fst (walkDown serviceId serviceMap maxDepth v d))
      \<le> unmarkedEdges serviceMap (\<lambda>s. length (dependsOnOrEmpty s)) v"
    using walkDown_size(1)[of serviceId serviceMap maxDepth v d] by simp
  also note unmarkedEdges_le_total
  finally show "forestSize (fst (walkDown serviceId serviceMap maxDepth v d))
        \<le> sum_list (map (\<lambda>(k, s). length (dependsOnOrEmpty s)) serviceMap)" .
  have "forestSize (fst (walkUp serviceId reverseIndex maxDepth v d))
      \<le> unmarkedEdges reverseIndex length v"
    using walkUp_size(1)[of serviceId reverseIndex maxDepth v d] by simp
  also note unmarkedEdges_le_total
  finally show "forestSize (fst (walkUp serviceId reverseIndex maxDepth v d))
        \<le> sum_list (map (\<lambda>(k, dependents). length dependents) reverseIndex)" .
qed

theorem walks_terminate_witness:
  "fst (walkDown ''a'' (serviceMapOf cyclicServices) NaN {} 0)
     = [DepNode ''b'' ''b'' None None [DepNode ''a'' ''a'' None None []]]
   \<and> forestSize (fst (walkDown ''a'' (serviceMapOf cyclicServices) PosInfinity {} 0)) \<le> 2
   \<and> forestSize (fst (walkUp ''a'' (buildReverseIndex cyclicServices) NaN {} 0)) \<le> 2"
  using walks_terminate [of "''a''" "serviceMapOf cyclicServices" PosInfinity "{}" 0
      "buildReverseIndex cyclicServices"]
    walks_terminate [of "''a''" "serviceMapOf cyclicServices" NaN "{}" 0
      "buildReverseIndex cyclicServices"]
  by (simp add: walkDown.simps serviceMapOf_def newMap_def cyclicServices_def makeService_def
      dependsOn_def dependsOnOrEmpty_def buildReverseIndex_def addDependent_def)

section \<open>The diamond\<close>

text \<open>
  C1, as the claim states it, fails. The visited set is tested when a walk enters a
  service, not when the node for an edge is made: the callback of \<^verbatim>\<open>.map\<close> makes a node
  for every dependency and only the node's children come from the recursive call. In
  the diamond the shared service \<open>d\<close> is a child of \<open>b\<close> and of \<open>c\<close>, so it is in the
  forest twice; and so is \<open>a\<close> in the forest that walkUp returns for \<open>d\<close>.
\<close>

theorem diamond_counterexample:
  "fst (walkDown ''a'' (serviceMapOf diamondServices) (Integer 10) {} 0)
     = [DepNode ''b'' ''B'' None None [DepNode ''d'' ''D'' None None []],
        DepNode ''c'' ''C'' None None [DepNode ''d'' ''D'' None None []]]
   \<and> count_list (forestIds (fst (walkDown ''a'' (serviceMapOf diamondServices) (Integer 10) {} 0))) ''d'' = 2
   \<and> fst (walkUp ''d'' (buildReverseIndex diamondServices) (Integer 10) {} 0)
     = [DepNode ''b'' ''B'' None None [DepNode ''a'' ''A'' None None []],
        DepNode ''c'' ''C'' None None [DepNode ''a'' ''A'' None None []]]
   \<and> count_list (forestIds (fst (walkUp ''d'' (buildReverseIndex diamondServices) (Integer 10) {} 0))) ''a'' = 2"
  by (simp add: walkDown.simps walkUp.simps serviceMapOf_def newMap_def diamondServices_def
      makeService_def dependsOn_def dependsOnOrEmpty_def buildReverseIndex_def addDependent_def
      forestIds_def)

lemma walkDown_visited_grows:
  "v \<subseteq> snd (walkDown sid m md v d)" "v \<subseteq> snd (walkDown_map ds m md v d)"
  using walkDown_visited_mono walkDown_total by blast+

lemma walkUp_visited_grows:
  "v \<subseteq> snd (walkUp sid r md v d)" "v \<subseteq> snd (walkUp_map es r md v d)"
  using walkUp_visited_mono walkUp_total by blast+

lemma walkDown_marks_root:
  "\<not> geq d md \<Longrightarrow> sid \<in> snd (walkDown sid m md v d)"
proof (cases "sid \<in> v")
  case True
  then show ?thesis using walkDown_visited_grows(1)[of v sid m md d] by auto
next
  case False
  assume "\<not> geq d md"
  with False show ?thesis
    using walkDown_visited_grows(2)[of "insert sid v" _ m md d]
    by (auto simp: walkDown.simps split: option.splits)
qed

lemma walkUp_marks_root:
  "\<not> geq d md \<Longrightarrow> sid \<in> snd (walkUp sid r md v d)"
proof (cases "sid \<in> v")
  case True
  then show ?thesis using walkUp_visited_grows(1)[of v sid r md d] by auto
next
  case False
  assume "\<not> geq d md"
  with False show ?thesis
    using walkUp_visited_grows(2)[of "insert sid v" _ r md d]
    by (auto simp: walkUp.simps)
qed

lemma walkDown_diamond:
  assumes A: "map_of m a = Some A" "dependsOnOrEmpty A = [toB, toC]"
      "dep_service toB = b" "dep_service toC = c"
    and B: "map_of m b = Some B" "dependsOnOrEmpty B = [bToD]" "dep_service bToD = d"
    and C: "map_of m c = Some C" "dependsOnOrEmpty C = [cToD]" "dep_service cToD = d"
    and D: "map_of m d = Some D"
    and dist: "distinct [a, b, c, d]"
    and depth: "\<not> geq 1 md"
    and sub: "c \<notin> snd (walkDown d m md {a, b} 2)"
  shows "fst (walkDown a m md {} 0) =
      [DepNode b (svc_name B) (dep_api toB) (dep_description toB)
         [DepNode d (svc_name D) (dep_api bToD) (dep_description bToD)
            (fst (walkDown d m md {a, b} 2))],
       DepNode c (svc_name C) (dep_api toC) (dep_description toC)
         [DepNode d (svc_name D) (dep_api cToD) (dep_description cToD) []]]"
proof -
  obtain kidsD vD where wd: "walkDown d m md {a, b} 2 = (kidsD, vD)"
    by (cases "walkDown d m md {a, b} 2")
  have ab: "insert b {a} = {a, b}" by auto
  have two: "Suc (Suc 0) = 2" by simp
  from dist have ne: "b \<noteq> a" "d \<noteq> a" "d \<noteq> b" by auto
  from depth have d0: "\<not> geq 0 md" by (cases md) auto
  from sub wd have cv: "c \<notin> vD" by simp
  have underB: "walkDown b m md {a} 1 =
      ([DepNode d (svc_name D) (dep_api bToD) (dep_description bToD) kidsD], vD)"
    using depth ne B D wd by (simp add: walkDown.simps[of b] ab two)
  have again: "walkDown d m md (insert c vD) 2 = ([], insert c vD)"
  proof (cases "geq 2 md")
    case True
    then show ?thesis by (simp add: walkDown.simps[of d])
  next
    case False
    from walkDown_marks_root[OF False, of d m "{a, b}"] wd have "d \<in> vD" by simp
    then show ?thesis by (simp add: walkDown.simps[of d])
  qed
  have underC: "walkDown c m md vD 1 =
      ([DepNode d (svc_name D) (dep_api cToD) (dep_description cToD) []], insert c vD)"
    using depth cv C D again by (simp add: walkDown.simps[of c] two)
  have "walkDown a m md {} 0 = walkDown_map [toB, toC] m md {a} 0"
    using d0 A by (simp add: walkDown.simps[of a])
  also have "\<dots> =
      ([DepNode b (svc_name B) (dep_api toB) (dep_description toB)
         [DepNode d (svc_name D) (dep_api bToD) (dep_description bToD) kidsD],
        DepNode c (svc_name C) (dep_api toC) (dep_description toC)
         [DepNode d (svc_name D) (dep_api cToD) (dep_description cToD) []]], insert c vD)"
    using A B C underB underC by simp
  finally show ?thesis using wd by simp
qed

lemma walkUp_diamond:
  assumes D: "map_of r d = Some [fromB, fromC]"
      "svc_id (re_service fromB) = b" "svc_id (re_service fromC) = c"
    and B: "map_of r b = Some [bFromA]" "svc_id (re_service bFromA) = a"
    and C: "map_of r c = Some [cFromA]" "svc_id (re_service cFromA) = a"
    and dist: "distinct [a, b, c, d]"
    and depth: "\<not> geq 1 md"
    and sub: "c \<notin> snd (walkUp a r md {d, b} 2)"
  shows "fst (walkUp d r md {} 0) =
      [DepNode b (svc_name (re_service fromB)) (re_api fromB) (re_description fromB)
         [DepNode a (svc_name (re_service bFromA)) (re_api bFromA) (re_description bFromA)
            (fst (walkUp a r md {d, b} 2))],
       DepNode c (svc_name (re_service fromC)) (re_api fromC) (re_description fromC)
         [DepNode a (svc_name (re_service cFromA)) (re_api cFromA) (re_description cFromA) []]]"
proof -
  obtain kidsA vA where wa: "walkUp a r md {d, b} 2 = (kidsA, vA)"
    by (cases "walkUp a r md {d, b} 2")
  have db: "insert b {d} = {d, b}" by auto
  have two: "Suc (Suc 0) = 2" by simp
  from dist have ne: "b \<noteq> d" "a \<noteq> d" "a \<noteq> b" by auto
  from depth have d0: "\<not> geq 0 md" by (cases md) auto
  from sub wa have cv: "c \<notin> vA" by simp
  have underB: "walkUp b r md {d} 1 =
      ([DepNode a (svc_name (re_service bFromA)) (re_api bFromA) (re_description bFromA) kidsA], vA)"
    using depth ne B wa by (simp add: walkUp.simps[of b] db two)
  have again: "walkUp a r md (insert c vA) 2 = ([], insert c vA)"
  proof (cases "geq 2 md")
    case True
    then show ?thesis by (simp add: walkUp.simps[of a])
  next
    case False
    from walkUp_marks_root[OF False, of a r "{d, b}"] wa have "a \<in> vA" by simp
    then show ?thesis by (simp add: walkUp.simps[of a])
  qed
  have underC: "walkUp c r md vA 1 =
      ([DepNode a (svc_name (re_service cFromA)) (re_api cFromA) (re_description cFromA) []],
       insert c vA)"
    using depth cv C again by (simp add: walkUp.simps[of c] two)
  have "walkUp d r md {} 0 = walkUp_map [fromB, fromC] r md {d} 0"
    using d0 D by (simp add: walkUp.simps[of d])
  also have "\<dots> =
      ([DepNode b (svc_name (re_service fromB)) (re_api fromB) (re_description fromB)
         [DepNode a (svc_name (re_service bFromA)) (re_api bFromA) (re_description bFromA) kidsA],
        DepNode c (svc_name (re_service fromC)) (re_api fromC) (re_description fromC)
         [DepNode a (svc_name (re_service cFromA)) (re_api cFromA) (re_description cFromA) []]],
       insert c vA)"
    using D B C underB underC by simp
  finally show ?thesis using wa by simp
qed

lemma count_diamond_forest:
  assumes "b \<noteq> d" and "c \<noteq> d"
  shows "count_list (forestIds
      [DepNode b nb ab db [DepNode d nd1 ad1 dd1 kids],
       DepNode c nc ac dc [DepNode d nd2 ad2 dd2 []]]) d
    = 2 + count_list (forestIds kids) d"
  using assms by (simp add: forestIds_def)

text \<open>
  C1, amended. With a depth limit above 1, for every diamond (\<open>a\<close> depends on \<open>b\<close>, then
  on \<open>c\<close>; \<open>b\<close> and \<open>c\<close> depend on \<open>d\<close>) walkDown returns \<open>b\<close> and \<open>c\<close>, each with the
  child \<open>d\<close>: the shared node is a child of both parents. Under \<open>b\<close>, enumerated first,
  \<open>d\<close> carries the subtree of its own dependencies; under \<open>c\<close> it has no children
  (provided the walk below \<open>d\<close> has not visited \<open>c\<close> itself). The forest holds \<open>d\<close> two
  times more than the subtree below the first \<open>d\<close> does: exactly twice when that subtree
  does not list \<open>d\<close> again. walkUp does the same on the reverse index, with \<open>a\<close> shared
  above \<open>b\<close> and \<open>c\<close>.
\<close>

theorem diamond_shared_node:
  "(map_of m a = Some A \<and> dependsOnOrEmpty A = [toB, toC]
      \<and> dep_service toB = b \<and> dep_service toC = c
      \<and> map_of m b = Some B \<and> dependsOnOrEmpty B = [bToD] \<and> dep_service bToD = d
      \<and> map_of m c = Some C \<and> dependsOnOrEmpty C = [cToD] \<and> dep_service cToD = d
      \<and> map_of m d = Some D \<and> distinct [a, b, c, d] \<and> \<not> geq 1 md
      \<and> c \<notin> snd (walkDown d m md {a, b} 2)
    \<longrightarrow> fst (walkDown a m md {} 0) =
      [DepNode b (svc_name B) (dep_api toB) (dep_description toB)
         [DepNode d (svc_name D) (dep_api bToD) (dep_description bToD)
            (fst (walkDown d m md {a, b} 2))],
       DepNode c (svc_name C) (dep_api toC) (dep_description toC)
         [DepNode d (svc_name D) (dep_api cToD) (dep_description cToD) []]]
      \<and> count_list (forestIds (fst (walkDown a m md {} 0))) d
          = 2 + count_list (forestIds (fst (walkDown d m md {a, b} 2))) d)
   \<and> (map_of r d = Some [fromB, fromC]
      \<and> svc_id (re_service fromB) = b \<and> svc_id (re_service fromC) = c
      \<and> map_of r b = Some [bFromA] \<and> svc_id (re_service bFromA) = a
      \<and> map_of r c = Some [cFromA] \<and> svc_id (re_service cFromA) = a
      \<and> distinct [a, b, c, d] \<and> \<not> geq 1 md
      \<and> c \<notin> snd (walkUp a r md {d, b} 2)
    \<longrightarrow> fst (walkUp d r md {} 0) =
      [DepNode b (svc_name (re_service fromB)) (re_api fromB) (re_description fromB)
         [DepNode a (svc_name (re_service bFromA)) (re_api bFromA) (re_description bFromA)
            (fst (walkUp a r md {d, b} 2))],
       DepNode c (svc_name (re_service fromC)) (re_api fromC) (re_description fromC)
         [DepNode a (svc_name (re_service cFromA)) (re_api cFromA) (re_description cFromA) []]]
      \<and> count_list (forestIds (fst (walkUp d r md {} 0))) a
          = 2 + count_list (forestIds (fst (walkUp a r md {d, b} 2))) a)"
proof (intro conjI impI)
  assume h: "map_of m a = Some A \<and> dependsOnOrEmpty A = [toB, toC]
      \<and> dep_service toB = b \<and> dep_service toC = c
      \<and> map_of m b = Some B \<and> dependsOnOrEmpty B = [bToD] \<and> dep_service bToD = d
      \<and> map_of m c = Some C \<and> dependsOnOrEmpty C = [cToD] \<and> dep_service cToD = d
      \<and> map_of m d = Some D \<and> distinct [a, b, c, d] \<and> \<not> geq 1 md
      \<and> c \<notin> snd (walkDown d m md {a, b} 2)"
  then have eq: "fst (walkDown a m md {} 0) =
      [DepNode b (svc_name B) (dep_api toB) (dep_description toB)
         [DepNode d (svc_name D) (dep_api bToD) (dep_description bToD)
            (fst (walkDown d m md {a, b} 2))],
       DepNode c (svc_name C) (dep_api toC) (dep_description toC)
         [DepNode d (svc_name D) (dep_api cToD) (dep_description cToD) []]]"
    using walkDown_diamond [of m a A toB toC b c B bToD d C cToD D md] by blast
  then show "fst (walkDown a m md {} 0) =
      [DepNode b (svc_name B) (dep_api toB) (dep_description toB)
         [DepNode d (svc_name D) (dep_api bToD) (dep_description bToD)
            (fst (walkDown d m md {a, b} 2))],
       DepNode c (svc_name C) (dep_api toC) (dep_description toC)
         [DepNode d (svc_name D) (dep_api cToD) (dep_description cToD) []]]" .
  from h have "b \<noteq> d" "c \<noteq> d" by auto
  then show "count_list (forestIds (fst (walkDown a m md {} 0))) d
          = 2 + count_list (forestIds (fst (walkDown d m md {a, b} 2))) d"
    unfolding eq by (rule count_diamond_forest)
next
  assume h: "map_of r d = Some [fromB, fromC]
      \<and> svc_id (re_service fromB) = b \<and> svc_id (re_service fromC) = c
      \<and> map_of r b = Some [bFromA] \<and> svc_id (re_service bFromA) = a
      \<and> map_of r c = Some [cFromA] \<and> svc_id (re_service cFromA) = a
      \<and> distinct [a, b, c, d] \<and> \<not> geq 1 md
      \<and> c \<notin> snd (walkUp a r md {d, b} 2)"
  then have eq: "fst (walkUp d r md {} 0) =
      [DepNode b (svc_name (re_service fromB)) (re_api fromB) (re_description fromB)
         [DepNode a (svc_name (re_service bFromA)) (re_api bFromA) (re_description bFromA)
            (fst (walkUp a r md {d, b} 2))],
       DepNode c (svc_name (re_service fromC)) (re_api fromC) (re_description fromC)
         [DepNode a (svc_name (re_service cFromA)) (re_api cFromA) (re_description cFromA) []]]"
    using walkUp_diamond [of r d fromB fromC b c bFromA a cFromA md] by blast
  then show "fst (walkUp d r md {} 0) =
      [DepNode b (svc_name (re_service fromB)) (re_api fromB) (re_description fromB)
         [DepNode a (svc_name (re_service bFromA)) (re_api bFromA) (re_description bFromA)
            (fst (walkUp a r md {d, b} 2))],
       DepNode c (svc_name (re_service fromC)) (re_api fromC) (re_description fromC)
         [DepNode a (svc_name (re_service cFromA)) (re_api cFromA) (re_description cFromA) []]]" .
  from h have "b \<noteq> a" "c \<noteq> a" by auto
  then show "count_list (forestIds (fst (walkUp d r md {} 0))) a
          = 2 + count_list (forestIds (fst (walkUp a r md {d, b} 2))) a"
    unfolding eq by (rule count_diamond_forest)
qed


theorem diamond_shared_node_witness:
  "fst (walkDown ''a'' (serviceMapOf diamondTailServices) (Integer 10) {} 0) =
      [DepNode ''b'' ''B'' None None
         [DepNode ''d'' ''D'' None None [DepNode ''e'' ''E'' None None []]],
       DepNode ''c'' ''C'' None None [DepNode ''d'' ''D'' None None []]]
   \<and> count_list (forestIds (fst (walkDown ''a'' (serviceMapOf diamondTailServices) (Integer 10) {} 0)))
        ''d'' = 2
   \<and> fst (walkUp ''d'' (buildReverseIndex diamondServices) (Integer 10) {} 0) =
      [DepNode ''b'' ''B'' None None [DepNode ''a'' ''A'' None None []],
       DepNode ''c'' ''C'' None None [DepNode ''a'' ''A'' None None []]]
   \<and> count_list (forestIds (fst (walkUp ''d'' (buildReverseIndex diamondServices) (Integer 10) {} 0)))
        ''a'' = 2"
  using diamond_shared_node
    [where m = "serviceMapOf diamondTailServices" and a = "''a''" and b = "''b''"
       and c = "''c''" and d = "''d''" and md = "Integer 10"
       and A = "makeService ''a'' ''A'' [dependsOn ''b'', dependsOn ''c'']"
       and B = "makeService ''b'' ''B'' [dependsOn ''d'']"
       and C = "makeService ''c'' ''C'' [dependsOn ''d'']"
       and D = "makeService ''d'' ''D'' [dependsOn ''e'']"
       and toB = "dependsOn ''b''" and toC = "dependsOn ''c''"
       and bToD = "dependsOn ''d''" and cToD = "dependsOn ''d''"
       and r = "buildReverseIndex diamondServices"
       and fromB = "\<lparr>re_service = makeService ''b'' ''B'' [dependsOn ''d''],
                      re_api = None, re_description = None\<rparr>"
       and fromC = "\<lparr>re_service = makeService ''c'' ''C'' [dependsOn ''d''],
                      re_api = None, re_description = None\<rparr>"
       and bFromA = "\<lparr>re_service = makeService ''a'' ''A'' [dependsOn ''b'', dependsOn ''c''],
                       re_api = None, re_description = None\<rparr>"
       and cFromA = "\<lparr>re_service = makeService ''a'' ''A'' [dependsOn ''b'', dependsOn ''c''],
                       re_api = None, re_description = None\<rparr>"]
  by (simp add: walkDown.simps walkUp.simps serviceMapOf_def newMap_def diamondServices_def
      diamondTailServices_def makeService_def dependsOn_def dependsOnOrEmpty_def
      buildReverseIndex_def addDependent_def forestIds_def)

section \<open>Duplicate names\<close>

lemma countNames_loop:
  "distinct (map fst acc) \<Longrightarrow>
   distinct (map fst (foldl (\<lambda>seen name.
        let lower = toLowerCase name
        in AList.update lower ((case map_of seen lower of None \<Rightarrow> 0 | Some c \<Rightarrow> c) + 1) seen)
       acc names))
   \<and> map_of (foldl (\<lambda>seen name.
        let lower = toLowerCase name
        in AList.update lower ((case map_of seen lower of None \<Rightarrow> 0 | Some c \<Rightarrow> c) + 1) seen)
       acc names) n
     = (case map_of acc n of
          None \<Rightarrow> if sharing toLowerCase names n = 0 then None else Some (sharing toLowerCase names n)
        | Some c \<Rightarrow> Some (c + sharing toLowerCase names n))"
proof (induction names arbitrary: acc)
  case Nil
  then show ?case by (simp add: sharing_def split: option.splits)
next
  case (Cons name names)
  let ?acc = "AList.update (toLowerCase name)
      ((case map_of acc (toLowerCase name) of None \<Rightarrow> 0 | Some c \<Rightarrow> c) + 1) acc"
  from Cons.prems have "distinct (map fst ?acc)" by (rule distinct_update)
  from Cons.IH[OF this] show ?case
    by (auto simp: Let_def update_conv' sharing_def split: option.splits)
qed

lemma countNames_distinct: "distinct (map fst (countNames toLowerCase names))"
  using countNames_loop[of "[]" toLowerCase names] by (simp add: countNames_def)

lemma map_of_countNames:
  "map_of (countNames toLowerCase names) n = (if sharing toLowerCase names n = 0 then None else Some (sharing toLowerCase names n))"
  using countNames_loop[of "[]" toLowerCase names n] by (simp add: countNames_def)

lemma countNames_entry:
  "(n, c) \<in> set (countNames toLowerCase names) \<Longrightarrow> c = sharing toLowerCase names n"
proof -
  assume "(n, c) \<in> set (countNames toLowerCase names)"
  with countNames_distinct have "map_of (countNames toLowerCase names) n = Some c"
    by (rule map_of_is_SomeI)
  then show ?thesis by (simp add: map_of_countNames split: if_splits)
qed

lemma filter_entity_findings:
  "distinct (map fst xs) \<Longrightarrow>
   filter (\<lambda>f. lr_entity f = n)
     (concat (map (\<lambda>(name, count). if count > 1 then [duplicateFinding kind name count] else []) xs))
   = (case map_of xs n of
        None \<Rightarrow> []
      | Some c \<Rightarrow> if c > 1 then [duplicateFinding kind n c] else [])"
proof (induction xs)
  case Nil
  show ?case by simp
next
  case (Cons e xs)
  obtain k c where e: "e = (k, c)" by (cases e)
  from Cons.prems e have notin: "k \<notin> fst ` set xs" and dist: "distinct (map fst xs)" by auto
  from notin have none: "map_of xs k = None" by (simp add: map_of_eq_None_iff)
  show ?case
    using Cons.IH[OF dist] none by (auto simp: e duplicateFinding_def)
qed

lemma check_per_name:
  "filter (\<lambda>f. lr_entity f = n) (check toLowerCase names kind)
     = (if 2 \<le> sharing toLowerCase names n then [duplicateFinding kind n (sharing toLowerCase names n)] else [])"
  unfolding check_def
  using filter_entity_findings[OF countNames_distinct[of toLowerCase names], of n kind]
  by (auto simp: map_of_countNames)

lemma sharing_le_one:
  "distinct (map toLowerCase names) \<Longrightarrow> sharing toLowerCase names n \<le> 1"
proof (induction names)
  case Nil
  show ?case by (simp add: sharing_def)
next
  case (Cons x names)
  then have le: "sharing toLowerCase names n \<le> 1" and new: "toLowerCase x \<notin> toLowerCase ` set names"
    by auto
  show ?case
  proof (cases "toLowerCase x = n")
    case False
    with le show ?thesis by (simp add: sharing_def)
  next
    case True
    with new have "\<forall>y \<in> set names. toLowerCase y \<noteq> n"
      by (metis imageI)
    then have "filter (\<lambda>y. toLowerCase y = n) names = []"
      by (simp add: filter_empty_conv)
    with True show ?thesis by (simp add: sharing_def)
  qed
qed

lemma check_distinct_Nil:
  assumes "distinct (map toLowerCase names)"
  shows "check toLowerCase names kind = []"
proof -
  have "\<forall>e \<in> set (countNames toLowerCase names). \<not> snd e > 1"
  proof
    fix e assume e: "e \<in> set (countNames toLowerCase names)"
    obtain k c where kc: "e = (k, c)" by (cases e)
    from e have "c = sharing toLowerCase names k" unfolding kc by (rule countNames_entry)
    with kc have "snd e = sharing toLowerCase names (fst e)" by simp
    with sharing_le_one[OF assms, of "fst e"] show "\<not> snd e > 1" by simp
  qed
  then show ?thesis by (auto simp: check_def)
qed

lemma check_type_kind:
  "f \<in> set (check toLowerCase names kind) \<Longrightarrow> lr_type f = ''duplicate_name'' \<and> lr_entityKind f = kind"
  by (auto simp: check_def duplicateFinding_def split: if_splits)

text \<open>
  C9. Whatever function the built-in \<^verbatim>\<open>toLowerCase\<close> is, findDuplicateNames compares the
  names after lowering them and checks each kind on its own: it is the findings of the
  services, then of the systems, then of the owners, each with its kind. A service and a
  system of the same name give no finding, and more generally nothing is found when the
  lowered names are distinct within each kind. Within a kind, the findings for a lowered
  name \<open>n\<close> are exactly one when two or more names lower to \<open>n\<close>, and none otherwise;
  the finding's message starts with that number.
\<close>

theorem findDuplicateNames_scoped:
  "(svc_name s = sys_name y \<longrightarrow> findDuplicateNames toLowerCase [s] [y] [] = [])
   \<and> (distinct (map toLowerCase (map svc_name services))
        \<and> distinct (map toLowerCase (map sys_name systems))
        \<and> distinct (map toLowerCase (map own_name owners))
      \<longrightarrow> findDuplicateNames toLowerCase services systems owners = [])
   \<and> findDuplicateNames toLowerCase services systems owners
        = check toLowerCase (map svc_name services) ''service''
          @ check toLowerCase (map sys_name systems) ''system''
          @ check toLowerCase (map own_name owners) ''owner''
   \<and> (\<forall>f \<in> set (check toLowerCase names kind). lr_type f = ''duplicate_name'' \<and> lr_entityKind f = kind)
   \<and> filter (\<lambda>f. lr_entity f = n) (check toLowerCase names kind)
        = (if 2 \<le> length (filter (\<lambda>x. toLowerCase x = n) names)
           then [\<lparr>lr_type = ''duplicate_name'', lr_severity = Error, lr_entity = n,
                  lr_entityKind = kind,
                  lr_message = showNat (length (filter (\<lambda>x. toLowerCase x = n) names))
                     @ '' '' @ kind @ ''s share the name '' @ dquote @ n @ dquote,
                  lr_fix = None\<rparr>]
           else [])"
proof (intro conjI impI ballI)
  show "findDuplicateNames toLowerCase [s] [y] [] = []"
    by (simp add: findDuplicateNames_def check_distinct_Nil)
next
  assume "distinct (map toLowerCase (map svc_name services))
        \<and> distinct (map toLowerCase (map sys_name systems))
        \<and> distinct (map toLowerCase (map own_name owners))"
  then show "findDuplicateNames toLowerCase services systems owners = []"
    by (simp add: findDuplicateNames_def check_distinct_Nil)
next
  show "findDuplicateNames toLowerCase services systems owners
        = check toLowerCase (map svc_name services) ''service''
          @ check toLowerCase (map sys_name systems) ''system''
          @ check toLowerCase (map own_name owners) ''owner''"
    by (simp add: findDuplicateNames_def)
next
  fix f assume "f \<in> set (check toLowerCase names kind)"
  then show "lr_type f = ''duplicate_name''" and "lr_entityKind f = kind"
    by (simp_all add: check_type_kind)
next
  show "filter (\<lambda>f. lr_entity f = n) (check toLowerCase names kind)
        = (if 2 \<le> length (filter (\<lambda>x. toLowerCase x = n) names)
           then [\<lparr>lr_type = ''duplicate_name'', lr_severity = Error, lr_entity = n,
                  lr_entityKind = kind,
                  lr_message = showNat (length (filter (\<lambda>x. toLowerCase x = n) names))
                     @ '' '' @ kind @ ''s share the name '' @ dquote @ n @ dquote,
                  lr_fix = None\<rparr>]
           else [])"
    using check_per_name[of n toLowerCase names kind] by (simp add: sharing_def duplicateFinding_def)
qed

theorem findDuplicateNames_scoped_witness:
  "findDuplicateNames asciiLowerCase [makeService ''s1'' ''payments'' []]
      [\<lparr>sys_id = ''sys1'', sys_name = ''payments'', sys_owner = None\<rparr>] [] = []
   \<and> findDuplicateNames asciiLowerCase
        [makeService ''s1'' ''Svc-C'' [], makeService ''s2'' ''svc-c'' []] [] []
      = [\<lparr>lr_type = ''duplicate_name'', lr_severity = Error, lr_entity = ''svc-c'',
           lr_entityKind = ''service'',
           lr_message = ''2 services share the name '' @ dquote @ ''svc-c'' @ dquote,
           lr_fix = None\<rparr>]"
  using findDuplicateNames_scoped
    [of "makeService ''s1'' ''payments'' []"
        "\<lparr>sys_id = ''sys1'', sys_name = ''payments'', sys_owner = None\<rparr>"
        asciiLowerCase
        "[makeService ''s1'' ''Svc-C'' [], makeService ''s2'' ''svc-c'' []]" "[]" "[]"
        "[''Svc-C'', ''svc-c'']" "''service''" "''svc-c''"]
  by (simp add: makeService_def asciiLowerCase_def asciiLowerChar_def showNat.simps digitChar_def
      findDuplicateNames_def check_def countNames_def duplicateFinding_def)

section \<open>Circular dependencies\<close>

lemma grows_refl: "grows m svc st st"
  unfolding grows_def by (intro conjI exI[of _ "[]"]) simp_all

lemma grows_trans:
  assumes "grows m svc st st'" and "grows m svc st' st''"
  shows "grows m svc st st''"
proof -
  from assms(1) obtain js where a: "ancestors st' = ancestors st"
    and r: "results st' = results st @ map (circularFinding m svc) js"
    and k: "reported st' = reported st \<union> set (map (cycleKey (svc_id svc)) js)"
    and d: "distinct (map (cycleKey (svc_id svc)) js)"
    and n: "set (map (cycleKey (svc_id svc)) js) \<inter> reported st = {}"
    unfolding grows_def by blast
  from assms(2) obtain js' where a': "ancestors st'' = ancestors st'"
    and r': "results st'' = results st' @ map (circularFinding m svc) js'"
    and k': "reported st'' = reported st' \<union> set (map (cycleKey (svc_id svc)) js')"
    and d': "distinct (map (cycleKey (svc_id svc)) js')"
    and n': "set (map (cycleKey (svc_id svc)) js') \<inter> reported st' = {}"
    unfolding grows_def by blast
  show ?thesis
    unfolding grows_def
  proof (intro conjI exI[of _ "js @ js'"])
    show "ancestors st'' = ancestors st" using a a' by simp
    show "results st'' = results st @ map (circularFinding m svc) (js @ js')"
      using r r' by simp
    show "reported st'' = reported st \<union> set (map (cycleKey (svc_id svc)) (js @ js'))"
      using k k' by auto
    show "distinct (map (cycleKey (svc_id svc)) (js @ js'))"
      using d d' n' k by auto
    show "set (map (cycleKey (svc_id svc)) (js @ js')) \<inter> reported st = {}"
      using n n' k by auto
  qed
qed

lemma walk_grows:
  "grows m svc st (walk m svc i st)"
  "grows m svc st (walk_deps m svc ds st)"
proof (induction m svc i st and m svc ds st rule: walk_walk_deps.induct)
  case (1 serviceMap service i st)
  show ?case
  proof (cases "i \<in> ancestors st")
    case True
    show ?thesis
    proof (cases "cycleKey (svc_id service) i \<in> reported st")
      case True
      with \<open>i \<in> ancestors st\<close> show ?thesis by (simp add: walk.simps grows_refl)
    next
      case False
      with \<open>i \<in> ancestors st\<close> show ?thesis
        unfolding grows_def
        by (intro conjI exI[of _ "[i]"]) (simp_all add: walk.simps)
    qed
  next
    case False
    let ?st1 = "st\<lparr>ancestors := insert i (ancestors st)\<rparr>"
    let ?st2 = "walk_deps serviceMap service (dependsOnOfLookup (map_of serviceMap i)) ?st1"
    from "1.IH"[OF False refl] have g: "grows serviceMap service ?st1 ?st2" .
    then have "ancestors ?st2 = insert i (ancestors st)" by (simp add: grows_def)
    with False have "ancestors ?st2 - {i} = ancestors st" by auto
    with g False show ?thesis
      by (simp add: walk.simps[of serviceMap service i st] Let_def grows_def)
  qed
next
  case (2 serviceMap service st)
  show ?case by (simp add: grows_refl)
next
  case (3 serviceMap service dep deps st)
  from "3.IH" show ?case by (simp add: grows_trans)
qed

lemma scanOrigin_aligned:
  assumes "aligned m seen st"
  shows "aligned m (seen @ [svc]) (scanOrigin m st svc)"
proof -
  let ?st0 = "st\<lparr>ancestors := {svc_id svc}\<rparr>"
  from assms obtain pairs where r: "results st = map (\<lambda>(s, j). circularFinding m s j) pairs"
    and k: "reported st = set (map (\<lambda>(s, j). cycleKey (svc_id s) j) pairs)"
    and d: "distinct (map (\<lambda>(s, j). cycleKey (svc_id s) j) pairs)"
    and o: "fst ` set pairs \<subseteq> set seen"
    unfolding aligned_def by blast
  have "grows m svc ?st0 (scanOrigin m st svc)"
    unfolding scanOrigin_def by (rule walk_grows(2))
  then obtain js where r': "results (scanOrigin m st svc) = results st @ map (circularFinding m svc) js"
    and k': "reported (scanOrigin m st svc) = reported st \<union> set (map (cycleKey (svc_id svc)) js)"
    and d': "distinct (map (cycleKey (svc_id svc)) js)"
    and n': "set (map (cycleKey (svc_id svc)) js) \<inter> reported st = {}"
    unfolding grows_def by auto
  show ?thesis
    unfolding aligned_def
  proof (intro exI[of _ "pairs @ map (Pair svc) js"] conjI)
    show "results (scanOrigin m st svc)
        = map (\<lambda>(s, j). circularFinding m s j) (pairs @ map (Pair svc) js)"
      using r r' by (simp add: comp_def)
    show "reported (scanOrigin m st svc)
        = set (map (\<lambda>(s, j). cycleKey (svc_id s) j) (pairs @ map (Pair svc) js))"
      using k k' by (auto simp: comp_def)
    show "distinct (map (\<lambda>(s, j). cycleKey (svc_id s) j) (pairs @ map (Pair svc) js))"
      using d d' n' k by (auto simp: comp_def)
    show "fst ` set (pairs @ map (Pair svc) js) \<subseteq> set (seen @ [svc])"
      using o by auto
  qed
qed

lemma scan_loop_aligned:
  "aligned m seen st \<Longrightarrow> aligned m (seen @ xs) (foldl (scanOrigin m) st xs)"
proof (induction xs arbitrary: seen st)
  case Nil
  then show ?case by simp
next
  case (Cons x xs)
  from Cons.IH[OF scanOrigin_aligned[OF Cons.prems, of x]] show ?case by simp
qed

lemma aligned_init: "aligned m [] \<lparr>ancestors = {}, reported = {}, results = []\<rparr>"
  unfolding aligned_def by (intro exI[of _ "[]"]) simp

lemma findCircularDeps_aligned:
  "\<exists>pairs. findCircularDeps services
       = map (\<lambda>(s, j). circularFinding (serviceMapOf services) s j) pairs
     \<and> fst ` set pairs \<subseteq> set services
     \<and> distinct (map (\<lambda>(s, j). cycleKey (svc_id s) j) pairs)"
  using scan_loop_aligned[OF aligned_init, of "serviceMapOf services" services]
  unfolding aligned_def findCircularDeps_def Let_def by auto

lemma strLess_asym: "strLess a b \<Longrightarrow> \<not> strLess b a"
  by (induction a b rule: strLess.induct) auto

lemma strLess_total: "\<not> strLess a b \<Longrightarrow> \<not> strLess b a \<Longrightarrow> a = b"
proof (induction a b rule: strLess.induct)
  case (4 x xs y ys)
  from 4(2,3) have "\<not> (of_char x :: nat) < of_char y" "\<not> (of_char y :: nat) < of_char x"
    by auto
  then have "(of_char x :: nat) = of_char y" by simp
  then have xy: "x = y" by simp
  with 4 show ?case by auto
qed simp_all

lemma cycleKey_sym: "cycleKey a b = cycleKey b a"
  using strLess_asym[of a b] strLess_asym[of b a] strLess_total[of a b]
  by (auto simp: cycleKey_def)

lemma walk_hit:
  "i \<in> ancestors st \<Longrightarrow> cycleKey (svc_id svc) i \<in> reported (walk m svc i st)"
  by (simp add: walk.simps Let_def)

lemma walk_enter:
  "i \<notin> ancestors st \<Longrightarrow>
     reported (walk m svc i st)
       = reported (walk_deps m svc (dependsOnOfLookup (map_of m i))
                     (st\<lparr>ancestors := insert i (ancestors st)\<rparr>))"
  by (simp add: walk.simps Let_def)

lemma grows_reported: "grows m svc st st' \<Longrightarrow> reported st \<subseteq> reported st'"
  by (auto simp: grows_def)

lemma grows_ancestors: "grows m svc st st' \<Longrightarrow> ancestors st' = ancestors st"
  by (simp add: grows_def)

lemma walk_deps_reaches:
  "dep \<in> set ds \<Longrightarrow>
     \<exists>st'. ancestors st' = ancestors st
        \<and> reported (walk m svc (dep_service dep) st') \<subseteq> reported (walk_deps m svc ds st)"
proof (induction ds arbitrary: st)
  case Nil
  then show ?case by simp
next
  case (Cons x ds)
  show ?case
  proof (cases "dep = x")
    case True
    have "reported (walk m svc (dep_service x) st)
        \<subseteq> reported (walk_deps m svc ds (walk m svc (dep_service x) st))"
      by (rule grows_reported[OF walk_grows(2)])
    with True show ?thesis by (intro exI[of _ st]) simp
  next
    case False
    with Cons.prems have "dep \<in> set ds" by simp
    from Cons.IH[OF this, of "walk m svc (dep_service x) st"]
    obtain st' where "ancestors st' = ancestors (walk m svc (dep_service x) st)"
      and "reported (walk m svc (dep_service dep) st')
        \<subseteq> reported (walk_deps m svc ds (walk m svc (dep_service x) st))"
      by blast
    moreover have "ancestors (walk m svc (dep_service x) st) = ancestors st"
      by (rule grows_ancestors[OF walk_grows(1)])
    ultimately show ?thesis by (intro exI[of _ st']) simp
  qed
qed

text \<open>A dependency of the origin's record on the origin's own id is found.\<close>

lemma scanOrigin_self:
  assumes "map_of m (svc_id svc) = Some s" and "dep \<in> set (dependsOnOrEmpty s)"
    and "dep_service dep = svc_id svc"
  shows "cycleKey (svc_id svc) (svc_id svc) \<in> reported (scanOrigin m st svc)"
proof -
  let ?st0 = "st\<lparr>ancestors := {svc_id svc}\<rparr>"
  from walk_deps_reaches[OF assms(2), of ?st0 m svc]
  obtain st' where a: "ancestors st' = {svc_id svc}"
    and sub: "reported (walk m svc (dep_service dep) st')
        \<subseteq> reported (walk_deps m svc (dependsOnOrEmpty s) ?st0)"
    by auto
  from a have "svc_id svc \<in> ancestors st'" by simp
  from walk_hit[OF this, of svc m] sub assms(1,3) show ?thesis
    by (auto simp: scanOrigin_def dependsOnOfLookup_def)
qed

text \<open>A cycle of two services through the origin is found.\<close>

lemma scanOrigin_two_cycle:
  assumes "map_of m (svc_id svc) = Some s" and "dep \<in> set (dependsOnOrEmpty s)"
    and "map_of m (dep_service dep) = Some s'" and "dep2 \<in> set (dependsOnOrEmpty s')"
    and "dep_service dep2 = svc_id svc"
  shows "reported (scanOrigin m st svc) \<noteq> {}"
proof -
  let ?st0 = "st\<lparr>ancestors := {svc_id svc}\<rparr>"
  from walk_deps_reaches[OF assms(2), of ?st0 m svc]
  obtain st' where a: "ancestors st' = {svc_id svc}"
    and sub: "reported (walk m svc (dep_service dep) st')
        \<subseteq> reported (walk_deps m svc (dependsOnOrEmpty s) ?st0)"
    by auto
  have "reported (walk m svc (dep_service dep) st') \<noteq> {}"
  proof (cases "dep_service dep \<in> ancestors st'")
    case True
    from walk_hit[OF this, of svc m] show ?thesis by auto
  next
    case False
    let ?st1 = "st'\<lparr>ancestors := insert (dep_service dep) (ancestors st')\<rparr>"
    from walk_deps_reaches[OF assms(4), of ?st1 m svc]
    obtain st'' where a': "ancestors st'' = insert (dep_service dep) (ancestors st')"
      and sub': "reported (walk m svc (dep_service dep2) st'')
          \<subseteq> reported (walk_deps m svc (dependsOnOrEmpty s') ?st1)"
      by auto
    from a a' assms(5) have "dep_service dep2 \<in> ancestors st''" by simp
    from walk_hit[OF this, of svc m] sub' have "reported (walk_deps m svc (dependsOnOrEmpty s') ?st1) \<noteq> {}"
      by auto
    with False assms(3) show ?thesis
      by (simp add: walk_enter dependsOnOfLookup_def)
  qed
  with sub assms(1) show ?thesis
    by (auto simp: scanOrigin_def dependsOnOfLookup_def)
qed

lemma scanOrigin_grows: "grows m svc (st\<lparr>ancestors := {svc_id svc}\<rparr>) (scanOrigin m st svc)"
  unfolding scanOrigin_def by (rule walk_grows(2))

lemma scan_loop_keeps:
  "reported st \<subseteq> reported (foldl (scanOrigin m) st xs)
   \<and> (\<exists>more. results (foldl (scanOrigin m) st xs) = results st @ more)"
proof (induction xs arbitrary: st)
  case Nil
  show ?case by simp
next
  case (Cons x xs)
  from scanOrigin_grows[of m x st]
  have "reported st \<subseteq> reported (scanOrigin m st x)"
    and "\<exists>more. results (scanOrigin m st x) = results st @ more"
    by (auto simp: grows_def)
  with Cons.IH[of "scanOrigin m st x"] show ?case by auto
qed

lemma findCircularDeps_scanAll: "findCircularDeps services = results (scanAll services)"
  by (simp add: findCircularDeps_def scanAll_def)

lemma scanAll_split:
  "scanAll (xs @ x # ys) =
     foldl (scanOrigin (serviceMapOf (xs @ x # ys)))
       (scanOrigin (serviceMapOf (xs @ x # ys))
          (foldl (scanOrigin (serviceMapOf (xs @ x # ys)))
             \<lparr>ancestors = {}, reported = {}, results = []\<rparr> xs) x) ys"
  by (simp add: scanAll_def)

lemma reported_nonempty_findings:
  assumes "reported (scanAll services) \<noteq> {}"
  shows "findCircularDeps services \<noteq> []"
proof -
  from scan_loop_aligned[OF aligned_init, of "serviceMapOf services" services]
  have "aligned (serviceMapOf services) services (scanAll services)"
    by (simp add: scanAll_def)
  with assms show ?thesis
    unfolding aligned_def findCircularDeps_scanAll by auto
qed

lemma findCircularDeps_type:
  "f \<in> set (findCircularDeps services) \<Longrightarrow> lr_type f = ''circular_dependency''"
  using findCircularDeps_aligned[of services] by (auto simp: circularFinding_def)

lemma findCircularDeps_two_cycle:
  assumes dist: "distinct (map svc_id services)"
    and s1: "s1 \<in> set services" and s2: "s2 \<in> set services"
    and d12: "dep \<in> set (dependsOnOrEmpty s1)" "dep_service dep = svc_id s2"
    and d21: "dep2 \<in> set (dependsOnOrEmpty s2)" "dep_service dep2 = svc_id s1"
  shows "findCircularDeps services \<noteq> []"
proof -
  from s1 obtain xs ys where split: "services = xs @ s1 # ys" by (auto simp: in_set_conv_decomp)
  let ?m = "serviceMapOf services"
  let ?st = "foldl (scanOrigin ?m) \<lparr>ancestors = {}, reported = {}, results = []\<rparr> xs"
  have m1: "map_of ?m (svc_id s1) = Some s1" by (rule map_of_serviceMapOf_distinct[OF dist s1])
  have m2: "map_of ?m (dep_service dep) = Some s2"
    unfolding d12(2) by (rule map_of_serviceMapOf_distinct[OF dist s2])
  from scanOrigin_two_cycle[OF m1 d12(1) m2 d21(1) d21(2), of ?st]
  have "reported (scanOrigin ?m ?st s1) \<noteq> {}" .
  moreover have "reported (scanOrigin ?m ?st s1) \<subseteq> reported (foldl (scanOrigin ?m) (scanOrigin ?m ?st s1) ys)"
    using scan_loop_keeps[of "scanOrigin ?m ?st s1" ?m ys] by blast
  ultimately have "reported (scanAll services) \<noteq> {}"
    unfolding split scanAll_split by auto
  then show ?thesis by (rule reported_nonempty_findings)
qed

lemma cycleKey_unordered: "{a, b} = {c, d} \<Longrightarrow> cycleKey a b = cycleKey c d"
  by (auto simp: doubleton_eq_iff cycleKey_sym)

lemma distinct_map_coarser:
  assumes "distinct (map k xs)" and "\<And>x y. u x = u y \<Longrightarrow> k x = k y"
  shows "distinct (map u xs)"
proof -
  from assms(1) have d: "distinct xs" and i: "inj_on k (set xs)"
    by (simp_all add: distinct_map)
  have "inj_on u (set xs)"
  proof (rule inj_onI)
    fix x y assume "x \<in> set xs" "y \<in> set xs" "u x = u y"
    with assms(2)[of x y] i show "x = y" by (auto dest: inj_onD)
  qed
  with d show ?thesis by (simp add: distinct_map)
qed

text \<open>On a state given by its fields, one step of \<^verbatim>\<open>walk\<close>, with the ancestors restored.\<close>

lemma walk_step:
  "walk m svc i st =
     (if i \<in> ancestors st then
        (if cycleKey (svc_id svc) i \<notin> reported st
         then st\<lparr>reported := insert (cycleKey (svc_id svc) i) (reported st),
                 results := results st @ [circularFinding m svc i]\<rparr>
         else st)
      else (walk_deps m svc (dependsOnOfLookup (map_of m i))
              (st\<lparr>ancestors := insert i (ancestors st)\<rparr>))\<lparr>ancestors := ancestors st\<rparr>)"
proof (cases "i \<in> ancestors st")
  case True
  then show ?thesis by (simp add: walk.simps Let_def)
next
  case False
  have "ancestors (walk_deps m svc (dependsOnOfLookup (map_of m i))
      (st\<lparr>ancestors := insert i (ancestors st)\<rparr>)) = insert i (ancestors st)"
    using grows_ancestors[OF walk_grows(2)] by simp
  with False show ?thesis by (simp add: walk.simps[of m svc i st] Let_def)
qed

lemma scanAll_aligned: "aligned (serviceMapOf services) services (scanAll services)"
  using scan_loop_aligned[OF aligned_init, of "serviceMapOf services" services]
  by (simp add: scanAll_def)

text \<open>
  C3. In a catalog with unique ids (the data model's invariant) that has two services
  depending on each other, findCircularDeps returns a finding of type
  circular_dependency. For every catalog, the findings are the results of the state in
  which the loop ends, and that state is aligned: there is a list of pairs (origin, id
  where the cycle was detected) that gives the findings one by one and whose keys are
  exactly the keys the run has reported, each once. The keys of the pairs differ from
  each other, so do their unordered pairs, and there are as many findings as reported
  keys: no unordered pair is reported twice. The key does not depend on the order of the
  pair.
\<close>

theorem findCircularDeps_cycle_dedup:
  "(distinct (map svc_id services) \<and> s1 \<in> set services \<and> s2 \<in> set services
      \<and> dep \<in> set (dependsOnOrEmpty s1) \<and> dep_service dep = svc_id s2
      \<and> dep2 \<in> set (dependsOnOrEmpty s2) \<and> dep_service dep2 = svc_id s1
     \<longrightarrow> (\<exists>f \<in> set (findCircularDeps services). lr_type f = ''circular_dependency''))
   \<and> findCircularDeps services = results (scanAll services)
   \<and> (\<exists>pairs. results (scanAll services)
          = map (\<lambda>(origin, i). circularFinding (serviceMapOf services) origin i) pairs
        \<and> reported (scanAll services)
          = set (map (\<lambda>(origin, i). cycleKey (svc_id origin) i) pairs)
        \<and> fst ` set pairs \<subseteq> set services
        \<and> distinct (map (\<lambda>(origin, i). cycleKey (svc_id origin) i) pairs)
        \<and> distinct (map (\<lambda>(origin, i). {svc_id origin, i}) pairs))
   \<and> length (findCircularDeps services) = card (reported (scanAll services))
   \<and> cycleKey a b = cycleKey b a"
proof -
  from scanAll_aligned[of services]
  obtain pairs where p: "results (scanAll services)
          = map (\<lambda>(origin, i). circularFinding (serviceMapOf services) origin i) pairs"
    "reported (scanAll services) = set (map (\<lambda>(origin, i). cycleKey (svc_id origin) i) pairs)"
    "distinct (map (\<lambda>(origin, i). cycleKey (svc_id origin) i) pairs)"
    "fst ` set pairs \<subseteq> set services"
    unfolding aligned_def by blast
  have u: "distinct (map (\<lambda>(origin, i). {svc_id origin, i}) pairs)"
    by (rule distinct_map_coarser[OF p(3)]) (auto dest: cycleKey_unordered)
  have part1: "distinct (map svc_id services) \<and> s1 \<in> set services \<and> s2 \<in> set services
      \<and> dep \<in> set (dependsOnOrEmpty s1) \<and> dep_service dep = svc_id s2
      \<and> dep2 \<in> set (dependsOnOrEmpty s2) \<and> dep_service dep2 = svc_id s1
     \<longrightarrow> (\<exists>f \<in> set (findCircularDeps services). lr_type f = ''circular_dependency'')"
  proof
    assume h: "distinct (map svc_id services) \<and> s1 \<in> set services \<and> s2 \<in> set services
      \<and> dep \<in> set (dependsOnOrEmpty s1) \<and> dep_service dep = svc_id s2
      \<and> dep2 \<in> set (dependsOnOrEmpty s2) \<and> dep_service dep2 = svc_id s1"
    then have "findCircularDeps services \<noteq> []"
      using findCircularDeps_two_cycle[of services s1 s2 dep dep2] by blast
    then obtain f where f: "f \<in> set (findCircularDeps services)"
      by (cases "findCircularDeps services") auto
    from f findCircularDeps_type[OF f]
    show "\<exists>f \<in> set (findCircularDeps services). lr_type f = ''circular_dependency''" by blast
  qed
  have part2: "findCircularDeps services = results (scanAll services)"
    by (rule findCircularDeps_scanAll)
  have part3: "\<exists>pairs. results (scanAll services)
          = map (\<lambda>(origin, i). circularFinding (serviceMapOf services) origin i) pairs
        \<and> reported (scanAll services)
          = set (map (\<lambda>(origin, i). cycleKey (svc_id origin) i) pairs)
        \<and> fst ` set pairs \<subseteq> set services
        \<and> distinct (map (\<lambda>(origin, i). cycleKey (svc_id origin) i) pairs)
        \<and> distinct (map (\<lambda>(origin, i). {svc_id origin, i}) pairs)"
    using p u by blast
  have "card (reported (scanAll services))
      = length (map (\<lambda>(origin, i). cycleKey (svc_id origin) i) pairs)"
    unfolding p(2) using p(3) by (rule distinct_card)
  then have part4: "length (findCircularDeps services) = card (reported (scanAll services))"
    by (simp add: part2 p(1))
  have part5: "cycleKey a b = cycleKey b a" by (rule cycleKey_sym)
  from part1 part2 part3 part4 part5 show ?thesis by (intro conjI)
qed


theorem findCircularDeps_cycle_dedup_witness:
  "findCircularDeps twoCycle =
     [\<lparr>lr_type = ''circular_dependency'', lr_severity = Error, lr_entity = ''svc-a'',
        lr_entityKind = ''service'',
        lr_message = ''Circular dependency detected: svc-a '' @ arrow @ '' svc-a'',
        lr_fix = None\<rparr>,
      \<lparr>lr_type = ''circular_dependency'', lr_severity = Error, lr_entity = ''svc-b'',
        lr_entityKind = ''service'',
        lr_message = ''Circular dependency detected: svc-b '' @ arrow @ '' svc-b'',
        lr_fix = None\<rparr>]
   \<and> reported (scanAll twoCycle) = {''s1:s1'', ''s2:s2''}"
  using findCircularDeps_cycle_dedup
    [of twoCycle "makeService ''s1'' ''svc-a'' [dependsOn ''s2'']"
        "makeService ''s2'' ''svc-b'' [dependsOn ''s1'']" "dependsOn ''s2''" "dependsOn ''s1''"
        "''s1''" "''s2''"]
  by (simp add: findCircularDeps_def scanAll_def scanOrigin_def serviceMapOf_def newMap_def
      makeService_def dependsOn_def dependsOnOrEmpty_def dependsOnOfLookup_def walk_step
      cycleKey_def circularFinding_def twoCycle_def insert_commute)


section \<open>Self-dependency\<close>

lemma colon_split:
  assumes "CHR '':'' \<notin> set a" and "p @ CHR '':'' # q = a @ CHR '':'' # a"
  shows "p = a \<and> q = a"
  using assms
  by (auto simp: append_eq_append_conv2 append_eq_Cons_conv Cons_eq_append_conv)

lemma cycleKey_self: "cycleKey a a = a @ CHR '':'' # a"
  using strLess_asym[of a a] by (auto simp: cycleKey_def)

lemma cycleKey_self_inj:
  assumes "CHR '':'' \<notin> set a" and "cycleKey x j = cycleKey a a"
  shows "x = a \<and> j = a"
proof (cases "strLess j x")
  case True
  with assms(2) have "j @ CHR '':'' # x = a @ CHR '':'' # a"
    by (simp add: cycleKey_def cycleKey_self)
  from colon_split[OF assms(1) this] show ?thesis by simp
next
  case False
  with assms(2) have "x @ CHR '':'' # j = a @ CHR '':'' # a"
    by (simp add: cycleKey_def cycleKey_self)
  from colon_split[OF assms(1) this] show ?thesis by simp
qed

lemma findCircularDeps_self_dependency:
  assumes dist: "distinct (map svc_id services)"
    and A: "A \<in> set services"
    and self: "dep \<in> set (dependsOnOrEmpty A)" "dep_service dep = svc_id A"
    and colon: "CHR '':'' \<notin> set (svc_id A)"
  shows "circularFinding (serviceMapOf services) A (svc_id A) \<in> set (findCircularDeps services)"
proof -
  from A obtain xs ys where split: "services = xs @ A # ys" by (auto simp: in_set_conv_decomp)
  let ?m = "serviceMapOf services"
  let ?key = "cycleKey (svc_id A) (svc_id A)"
  let ?st = "foldl (scanOrigin ?m) \<lparr>ancestors = {}, reported = {}, results = []\<rparr> xs"
  let ?st1 = "scanOrigin ?m ?st A"
  have mA: "map_of ?m (svc_id A) = Some A" by (rule map_of_serviceMapOf_distinct[OF dist A])
  have fresh: "?key \<notin> reported ?st"
  proof
    assume in_rep: "?key \<in> reported ?st"
    from scan_loop_aligned[OF aligned_init, of ?m xs] have "aligned ?m xs ?st" by simp
    then obtain pairs where "reported ?st = set (map (\<lambda>(s, j). cycleKey (svc_id s) j) pairs)"
      and origins: "fst ` set pairs \<subseteq> set xs"
      unfolding aligned_def by blast
    with in_rep obtain s j where sj: "(s, j) \<in> set pairs" and "cycleKey (svc_id s) j = ?key"
      by auto
    from cycleKey_self_inj[OF colon this(2)] have "svc_id s = svc_id A" by simp
    moreover from sj origins have "s \<in> set xs" by force
    ultimately have "svc_id A \<in> svc_id ` set xs" by (metis imageI)
    with dist split show False by simp
  qed
  from scanOrigin_grows[of ?m A ?st]
  obtain js where res: "results ?st1 = results ?st @ map (circularFinding ?m A) js"
    and rep: "reported ?st1 = reported ?st \<union> set (map (cycleKey (svc_id A)) js)"
    unfolding grows_def by auto
  from scanOrigin_self[OF mA self, of ?st] have "?key \<in> reported ?st1" .
  with fresh rep obtain j where j: "j \<in> set js" and "cycleKey (svc_id A) j = ?key" by auto
  from cycleKey_self_inj[OF colon this(2)] have "j = svc_id A" by simp
  with j res have "circularFinding ?m A (svc_id A) \<in> set (results ?st1)" by auto
  moreover obtain more where "results (foldl (scanOrigin ?m) ?st1 ys) = results ?st1 @ more"
    using scan_loop_keeps[of ?st1 ?m ys] by blast
  ultimately have "circularFinding ?m A (svc_id A) \<in> set (results (scanAll services))"
    unfolding split scanAll_split by auto
  then show ?thesis by (simp add: findCircularDeps_scanAll)
qed

lemma self_key_reported:
  assumes dist: "distinct (map svc_id services)"
    and A: "A \<in> set services"
    and self: "dep \<in> set (dependsOnOrEmpty A)" "dep_service dep = svc_id A"
  shows "cycleKey (svc_id A) (svc_id A) \<in> reported (scanAll services)"
proof -
  from A obtain xs ys where split: "services = xs @ A # ys" by (auto simp: in_set_conv_decomp)
  let ?m = "serviceMapOf services"
  let ?st = "foldl (scanOrigin ?m) \<lparr>ancestors = {}, reported = {}, results = []\<rparr> xs"
  have mA: "map_of ?m (svc_id A) = Some A" by (rule map_of_serviceMapOf_distinct[OF dist A])
  from scanOrigin_self[OF mA self, of ?st]
  have "cycleKey (svc_id A) (svc_id A) \<in> reported (scanOrigin ?m ?st A)" .
  moreover have "reported (scanOrigin ?m ?st A)
      \<subseteq> reported (foldl (scanOrigin ?m) (scanOrigin ?m ?st A) ys)"
    using scan_loop_keeps[of "scanOrigin ?m ?st A" ?m ys] by blast
  ultimately show ?thesis unfolding split scanAll_split by auto
qed

text \<open>
  The key joins the two ids by \<open>:\<close>, so it tells the pairs apart only as long as the ids
  are free of \<open>:\<close> (the ids that \<^verbatim>\<open>newId\<close> makes are). In \<open>colonServices\<close> the key of the
  self-dependency of \<open>a:a\<close> is the key that the origin \<open>a:a:a\<close> has reported for the
  cycle it met at \<open>a\<close>.
\<close>

lemma colon_ids_collide:
  "findCircularDeps colonServices =
     [\<lparr>lr_type = ''circular_dependency'', lr_severity = Error, lr_entity = ''n1'',
        lr_entityKind = ''service'',
        lr_message = ''Circular dependency detected: n1 '' @ arrow @ '' n2'', lr_fix = None\<rparr>,
      \<lparr>lr_type = ''circular_dependency'', lr_severity = Error, lr_entity = ''n2'',
        lr_entityKind = ''service'',
        lr_message = ''Circular dependency detected: n2 '' @ arrow @ '' n2'', lr_fix = None\<rparr>]
   \<and> ''n3'' \<notin> lr_entity ` set (findCircularDeps colonServices)
   \<and> cycleKey ''a:a'' ''a:a'' = cycleKey ''a:a:a'' ''a''"
  by (simp add: findCircularDeps_def scanOrigin_def serviceMapOf_def newMap_def
      makeService_def dependsOn_def dependsOnOrEmpty_def dependsOnOfLookup_def walk_step
      cycleKey_def circularFinding_def colonServices_def)

text \<open>
  C8. In a catalog with unique ids, for a service A that depends on its own id and whose
  id is free of the key separator \<open>:\<close>, the walk that starts from A meets A's id in the
  ancestor set, so the key of the pair (A, A) is reported by the run, and
  findCircularDeps returns the circular_dependency finding of A, whose message names A
  on both sides.
\<close>

theorem self_dependency_detected:
  "distinct (map svc_id services) \<and> A \<in> set services
     \<and> dep \<in> set (dependsOnOrEmpty A) \<and> dep_service dep = svc_id A
     \<and> CHR '':'' \<notin> set (svc_id A)
   \<longrightarrow> cycleKey (svc_id A) (svc_id A) \<in> reported (scanAll services)
     \<and> \<lparr>lr_type = ''circular_dependency'', lr_severity = Error, lr_entity = svc_name A,
         lr_entityKind = ''service'',
         lr_message = ''Circular dependency detected: '' @ svc_name A
            @ '' '' @ arrow @ '' '' @ svc_name A,
         lr_fix = None\<rparr> \<in> set (findCircularDeps services)"
proof (intro impI conjI)
  assume h: "distinct (map svc_id services) \<and> A \<in> set services
     \<and> dep \<in> set (dependsOnOrEmpty A) \<and> dep_service dep = svc_id A
     \<and> CHR '':'' \<notin> set (svc_id A)"
  then show "cycleKey (svc_id A) (svc_id A) \<in> reported (scanAll services)"
    using self_key_reported[of services A dep] by blast
  from h have mA: "map_of (serviceMapOf services) (svc_id A) = Some A"
    using map_of_serviceMapOf_distinct[of services A] by blast
  from h have "circularFinding (serviceMapOf services) A (svc_id A) \<in> set (findCircularDeps services)"
    using findCircularDeps_self_dependency[of services A dep] by blast
  then show "\<lparr>lr_type = ''circular_dependency'', lr_severity = Error, lr_entity = svc_name A,
         lr_entityKind = ''service'',
         lr_message = ''Circular dependency detected: '' @ svc_name A
            @ '' '' @ arrow @ '' '' @ svc_name A,
         lr_fix = None\<rparr> \<in> set (findCircularDeps services)"
    by (simp add: circularFinding_def mA)
qed

theorem self_dependency_detected_witness:
  "findCircularDeps [makeService ''s1'' ''svc-a'' [dependsOn ''s1'']]
     = [\<lparr>lr_type = ''circular_dependency'', lr_severity = Error, lr_entity = ''svc-a'',
          lr_entityKind = ''service'',
          lr_message = ''Circular dependency detected: svc-a '' @ arrow @ '' svc-a'',
          lr_fix = None\<rparr>]
   \<and> reported (scanAll [makeService ''s1'' ''svc-a'' [dependsOn ''s1'']]) = {''s1:s1''}"
  using self_dependency_detected
    [of "[makeService ''s1'' ''svc-a'' [dependsOn ''s1'']]"
        "makeService ''s1'' ''svc-a'' [dependsOn ''s1'']" "dependsOn ''s1''"]
  by (simp add: findCircularDeps_def scanAll_def scanOrigin_def serviceMapOf_def newMap_def
      makeService_def dependsOn_def dependsOnOrEmpty_def dependsOnOfLookup_def walk_step
      cycleKey_def circularFinding_def)


section \<open>An empty owner reference\<close>

lemma findOrphanedSystemRefs_type:
  "f \<in> set (findOrphanedSystemRefs services ids) \<Longrightarrow> lr_type f = ''orphaned_system_ref''"
  by (auto simp: findOrphanedSystemRefs_def split: option.splits if_splits)

lemma findOrphanedOwnerRefs_type:
  "f \<in> set (findOrphanedOwnerRefs services systems ids) \<Longrightarrow> lr_type f = ''orphaned_owner_ref''"
  by (auto simp: findOrphanedOwnerRefs_def ownerRefFinding_def split: option.splits if_splits)

lemma findMissingOwners_type:
  "f \<in> set (findMissingOwners services) \<Longrightarrow> lr_type f = ''missing_owner''"
  by (auto simp: findMissingOwners_def missingOwnerFinding_def)

lemma findDanglingDeps_type:
  "f \<in> set (findDanglingDeps services ids) \<Longrightarrow> lr_type f = ''dangling_dependency''"
  by (auto simp: findDanglingDeps_def split: if_splits)

lemma findDuplicateNames_type:
  "f \<in> set (findDuplicateNames toLowerCase services systems owners) \<Longrightarrow> lr_type f = ''duplicate_name''"
  by (auto simp: findDuplicateNames_def dest: check_type_kind)

lemma findEmptySystems_type:
  "f \<in> set (findEmptySystems systems services) \<Longrightarrow> lr_type f = ''empty_system''"
  by (auto simp: findEmptySystems_def)

lemma filter_none: "(\<And>x. x \<in> set xs \<Longrightarrow> \<not> P x) \<Longrightarrow> filter P xs = []"
  by (simp add: filter_empty_conv)

lemma filter_all: "(\<And>x. x \<in> set xs \<Longrightarrow> P x) \<Longrightarrow> filter P xs = xs"
  by (simp add: filter_id_conv)

lemma runLintChecks_owner_refs:
  "filter (\<lambda>f. lr_type f = ''orphaned_owner_ref'') (runLintChecks toLowerCase services systems owners)
     = findOrphanedOwnerRefs services systems (set (map own_id owners))"
proof -
  have 1: "filter (\<lambda>f. lr_type f = ''orphaned_owner_ref'')
      (findOrphanedSystemRefs services (set (map sys_id systems))) = []"
    by (rule filter_none) (auto dest: findOrphanedSystemRefs_type)
  have 2: "filter (\<lambda>f. lr_type f = ''orphaned_owner_ref'')
      (findOrphanedOwnerRefs services systems (set (map own_id owners)))
      = findOrphanedOwnerRefs services systems (set (map own_id owners))"
    by (rule filter_all) (auto dest: findOrphanedOwnerRefs_type)
  have 3: "filter (\<lambda>f. lr_type f = ''orphaned_owner_ref'') (findMissingOwners services) = []"
    by (rule filter_none) (auto dest: findMissingOwners_type)
  have 4: "filter (\<lambda>f. lr_type f = ''orphaned_owner_ref'')
      (findDanglingDeps services (set (map svc_id services))) = []"
    by (rule filter_none) (auto dest: findDanglingDeps_type)
  have 5: "filter (\<lambda>f. lr_type f = ''orphaned_owner_ref'') (findCircularDeps services) = []"
    by (rule filter_none) (auto dest: findCircularDeps_type)
  have 6: "filter (\<lambda>f. lr_type f = ''orphaned_owner_ref'')
      (findDuplicateNames toLowerCase services systems owners) = []"
    by (rule filter_none) (auto dest: findDuplicateNames_type)
  have 7: "filter (\<lambda>f. lr_type f = ''orphaned_owner_ref'') (findEmptySystems systems services) = []"
    by (rule filter_none) (auto dest: findEmptySystems_type)
  show ?thesis
    unfolding runLintChecks_def Let_def filter_append 1 2 3 4 5 6 7 by simp
qed

lemma findOrphanedOwnerRefs_skips_empty:
  "findOrphanedOwnerRefs services systems ids
     = findOrphanedOwnerRefs (filter (\<lambda>t. svc_owner t \<noteq> Some []) services) systems ids"
proof -
  have "concat (map (\<lambda>s.
       (case svc_owner s of
          None \<Rightarrow> []
        | Some ownerRef \<Rightarrow>
            if ownerRef \<noteq> [] \<and> ownerRef \<notin> ids
            then [ownerRefFinding (svc_name s) ''service'' ownerRef] else [])) services)
    = concat (map (\<lambda>s.
       (case svc_owner s of
          None \<Rightarrow> []
        | Some ownerRef \<Rightarrow>
            if ownerRef \<noteq> [] \<and> ownerRef \<notin> ids
            then [ownerRefFinding (svc_name s) ''service'' ownerRef] else []))
       (filter (\<lambda>t. svc_owner t \<noteq> Some []) services))"
    by (induction services) auto
  then show ?thesis by (simp add: findOrphanedOwnerRefs_def)
qed

text \<open>
  C10. A service whose owner is the empty string is reported by runLintChecks as having no
  owner (a missing_owner warning naming it), and it gives no orphaned_owner_ref finding:
  the check on that service alone finds nothing, and the orphaned_owner_ref findings of
  the whole run are those of the catalog without the services whose owner is empty.
\<close>

theorem empty_owner_is_missing_owner:
  "s \<in> set services \<and> svc_owner s = Some [] \<longrightarrow>
     missingOwnerFinding s \<in> set (runLintChecks toLowerCase services systems owners)
     \<and> lr_type (missingOwnerFinding s) = ''missing_owner''
     \<and> lr_severity (missingOwnerFinding s) = Warning
     \<and> lr_entity (missingOwnerFinding s) = svc_name s
     \<and> findOrphanedOwnerRefs [s] [] (set (map own_id owners)) = []
     \<and> filter (\<lambda>f. lr_type f = ''orphaned_owner_ref'') (runLintChecks toLowerCase services systems owners)
         = findOrphanedOwnerRefs (filter (\<lambda>t. svc_owner t \<noteq> Some []) services) systems
             (set (map own_id owners))"
proof (intro impI)
  assume h: "s \<in> set services \<and> svc_owner s = Some []"
  then have "missingOwnerFinding s \<in> set (findMissingOwners services)"
    by (auto simp: findMissingOwners_def truthy_def)
  then have a: "missingOwnerFinding s \<in> set (runLintChecks toLowerCase services systems owners)"
    by (simp add: runLintChecks_def Let_def)
  have b: "findOrphanedOwnerRefs [s] [] (set (map own_id owners)) = []"
    using h by (simp add: findOrphanedOwnerRefs_def)
  have c: "filter (\<lambda>f. lr_type f = ''orphaned_owner_ref'') (runLintChecks toLowerCase services systems owners)
         = findOrphanedOwnerRefs (filter (\<lambda>t. svc_owner t \<noteq> Some []) services) systems
             (set (map own_id owners))"
    unfolding runLintChecks_owner_refs by (rule findOrphanedOwnerRefs_skips_empty)
  from a b c show "missingOwnerFinding s \<in> set (runLintChecks toLowerCase services systems owners)
     \<and> lr_type (missingOwnerFinding s) = ''missing_owner''
     \<and> lr_severity (missingOwnerFinding s) = Warning
     \<and> lr_entity (missingOwnerFinding s) = svc_name s
     \<and> findOrphanedOwnerRefs [s] [] (set (map own_id owners)) = []
     \<and> filter (\<lambda>f. lr_type f = ''orphaned_owner_ref'') (runLintChecks toLowerCase services systems owners)
         = findOrphanedOwnerRefs (filter (\<lambda>t. svc_owner t \<noteq> Some []) services) systems
             (set (map own_id owners))"
    by (simp add: missingOwnerFinding_def)
qed

theorem empty_owner_is_missing_owner_witness:
  "runLintChecks asciiLowerCase
     [\<lparr>svc_id = ''s1'', svc_name = ''svc-a'', svc_system = None, svc_owner = Some [],
        svc_dependsOn = None\<rparr>] [] []
   = [\<lparr>lr_type = ''missing_owner'', lr_severity = Warning, lr_entity = ''svc-a'',
        lr_entityKind = ''service'', lr_message = ''Has no owner assigned'',
        lr_fix = Some ''yp service add --name svc-a --owner <owner>''\<rparr>]"
  using empty_owner_is_missing_owner
    [of "\<lparr>svc_id = ''s1'', svc_name = ''svc-a'', svc_system = None, svc_owner = Some [],
           svc_dependsOn = None\<rparr>"
        "[\<lparr>svc_id = ''s1'', svc_name = ''svc-a'', svc_system = None, svc_owner = Some [],
            svc_dependsOn = None\<rparr>]" asciiLowerCase "[]" "[]"]
  by (simp add: runLintChecks_def findOrphanedSystemRefs_def findOrphanedOwnerRefs_def
      findMissingOwners_def missingOwnerFinding_def truthy_def findDanglingDeps_def
      findCircularDeps_def scanOrigin_def serviceMapOf_def newMap_def dependsOnOrEmpty_def
      dependsOnOfLookup_def findDuplicateNames_def check_def countNames_def asciiLowerCase_def
      asciiLowerChar_def findEmptySystems_def)

end
